theory Spec2Isabelle
  imports Complex_Main "HOL-Library.Product_Lexorder"
begin

section \<open>Outline extraction (process\_pdfs.py): a shallow embedding\<close>

text \<open>
  The embedding follows \<^verbatim>\<open>process_pdfs.py\<close> function by function. Python floats
  (coordinates, font sizes, page dimensions) are modelled as exact rationals, Python
  strings as ASCII character lists, and a \<^verbatim>\<open>Counter\<close> as an association list in
  insertion order (the order \<^verbatim>\<open>most_common\<close> breaks ties by).
\<close>

subsection \<open>Python errors\<close>

datatype py_error = IndexError | ZeroDivisionError | StopIteration | ValueError | FileNotFound

definition py_truediv :: "nat \<Rightarrow> nat \<Rightarrow> py_error + rat" where
  "py_truediv a b = (if b = 0 then Inl ZeroDivisionError else Inr (of_nat a / of_nat b))"

definition index0 :: "'a list \<Rightarrow> py_error + 'a" where
  "index0 xs = (case xs of [] \<Rightarrow> Inl IndexError | x # _ \<Rightarrow> Inr x)"

subsection \<open>Characters and strings\<close>

definition isspace :: "char \<Rightarrow> bool" where
  "isspace c = (c \<in> set [CHR 0x09, CHR 0x0A, CHR 0x0B, CHR 0x0C, CHR 0x0D,
                           CHR 0x1C, CHR 0x1D, CHR 0x1E, CHR 0x1F, CHR 0x20])"

definition isupper :: "char \<Rightarrow> bool" where
  "isupper c = (65 \<le> (of_char c :: nat) \<and> (of_char c :: nat) \<le> 90)"

definition islower :: "char \<Rightarrow> bool" where
  "islower c = (97 \<le> (of_char c :: nat) \<and> (of_char c :: nat) \<le> 122)"

definition isalpha :: "char \<Rightarrow> bool" where
  "isalpha c = (isupper c \<or> islower c)"

definition isdigit :: "char \<Rightarrow> bool" where
  "isdigit c = (48 \<le> (of_char c :: nat) \<and> (of_char c :: nat) \<le> 57)"

text \<open>The class \<^verbatim>\<open>\w\<close> of the regular expressions: letters, digits, underscore.\<close>

definition is_word_char :: "char \<Rightarrow> bool" where
  "is_word_char c = (isalpha c \<or> isdigit c \<or> c = CHR ''_'')"

definition lower_char :: "char \<Rightarrow> char" where
  "lower_char c = (if isupper c then char_of (of_char c + (32 :: nat)) else c)"

definition lower :: "string \<Rightarrow> string" where
  "lower s = map lower_char s"

definition strip :: "string \<Rightarrow> string" where
  "strip s = rev (dropWhile isspace (rev (dropWhile isspace s)))"

definition replace_nl :: "string \<Rightarrow> string" where
  "replace_nl s = map (\<lambda>c. if c = CHR 0x0A then CHR 0x20 else c) s"

definition endswith :: "string \<Rightarrow> char list \<Rightarrow> bool" where
  "endswith s cs = (s \<noteq> [] \<and> last s \<in> set cs)"

text \<open>\<^verbatim>\<open>str.split()\<close> with no argument: the maximal runs of non-whitespace.\<close>

fun split_aux :: "string \<Rightarrow> string \<Rightarrow> string list" where
  "split_aux cur [] = (if cur = [] then [] else [cur])"
| "split_aux cur (c # cs) =
     (if isspace c then (if cur = [] then split_aux [] cs else cur # split_aux [] cs)
      else split_aux (cur @ [c]) cs)"

definition split :: "string \<Rightarrow> string list" where
  "split s = split_aux [] s"

fun startswith :: "string \<Rightarrow> string \<Rightarrow> bool" where
  "startswith s [] = True"
| "startswith [] (p # ps) = False"
| "startswith (c # cs) (p # ps) = (c = p \<and> startswith cs ps)"

text \<open>\<^verbatim>\<open>sub in s\<close>: substring test.\<close>

fun contains :: "string \<Rightarrow> string \<Rightarrow> bool" where
  "contains [] sub = (sub = [])"
| "contains (c # cs) sub = (startswith (c # cs) sub \<or> contains cs sub)"

text \<open>\<^verbatim>\<open>" ".join(xs)\<close>.\<close>

fun join_space :: "string list \<Rightarrow> string" where
  "join_space [] = []"
| "join_space [x] = x"
| "join_space (x # y # ys) = x @ '' '' @ join_space (y # ys)"

subsection \<open>Counter\<close>

type_synonym 'k counter = "('k \<times> nat) list"

text \<open>\<^verbatim>\<open>c[k] += n\<close>: an existing key keeps its place, a new key goes last.\<close>

fun counter_add :: "'k \<Rightarrow> nat \<Rightarrow> 'k counter \<Rightarrow> 'k counter" where
  "counter_add k n [] = [(k, n)]"
| "counter_add k n ((k', c) # rest) =
     (if k' = k then (k', c + n) # rest else (k', c) # counter_add k n rest)"

text \<open>
  \<^verbatim>\<open>c.most_common(1)\<close>: the empty list for an empty counter, otherwise the first
  item of maximal count (\<^verbatim>\<open>max\<close> replaces its candidate only by a strictly greater one).
\<close>

fun most_common_1 :: "'k counter \<Rightarrow> ('k \<times> nat) list" where
  "most_common_1 [] = []"
| "most_common_1 (x # xs) = [fold (\<lambda>y best. if snd best < snd y then y else best) xs x]"

subsection \<open>The document as the layout provider delivers it\<close>

type_synonym bbox = "rat \<times> rat \<times> rat \<times> rat"
type_synonym style = "int \<times> bool"

record span =
  span_text :: string
  span_font :: string
  span_size :: rat

text \<open>
  A line of \<^verbatim>\<open>get_text("dict")\<close>. Python has two float zeros, \<^verbatim>\<open>0.0\<close> and \<^verbatim>\<open>-0.0\<close>,
  equal as numbers and printed differently. The only float that \<^verbatim>\<open>process_pdf\<close> prints
  is \<^verbatim>\<open>bbox[1]\<close> (line 186), so the line says whether that float is \<^verbatim>\<open>-0.0\<close>; the
  field is read only where the second component of \<open>bbox\<close> is 0.
\<close>

record raw_line =
  bbox :: bbox
  bbox_y0_minus_zero :: bool
  spans :: "span list"

text \<open>A block of \<^verbatim>\<open>get_text("dict")\<close>; \<open>None\<close> when it has no key \<^verbatim>\<open>"lines"\<close>.\<close>

record block =
  lines :: "raw_line list option"

text \<open>A tuple of \<^verbatim>\<open>get_text("blocks")\<close>: \<open>b0 .. b3\<close> the box, \<open>b4\<close> the text.\<close>

record text_block =
  b0 :: rat
  b1 :: rat
  b2 :: rat
  b3 :: rat
  b4 :: string

record page =
  width :: rat
  height :: rat
  text_blocks :: "text_block list"
  tables :: "bbox list"
  dict_blocks :: "block list"

type_synonym document = "page list"

subsection \<open>detect\_headers\_and\_footers\<close>

definition count_block :: "rat \<Rightarrow> text_block \<Rightarrow> string counter \<Rightarrow> string counter" where
  "count_block page_height b text_counts =
     (if b1 b < page_height * (1 / 5) \<or> b3 b > page_height * (17 / 20) then
        (let line_text = replace_nl (strip (b4 b)) in
         if 5 < length line_text \<and> length line_text < 100 \<and> \<not> endswith line_text ''.''
         then counter_add line_text 1 text_counts
         else text_counts)
      else text_counts)"

definition count_page :: "page \<Rightarrow> string counter \<Rightarrow> string counter" where
  "count_page p text_counts = fold (count_block (height p)) (text_blocks p) text_counts"

definition scanned_pages :: "document \<Rightarrow> page list" where
  "scanned_pages doc =
     (let page_count = length doc; start_page = page_count div 4;
          end_page = page_count - start_page
      in take (end_page - start_page) (drop start_page doc))"

definition detect_headers_and_footers :: "document \<Rightarrow> string set" where
  "detect_headers_and_footers doc =
     (let page_count = length doc in
      if page_count < 4 then {}
      else
        (let start_page = page_count div 4;
             end_page = page_count - start_page;
             text_counts = fold count_page (scanned_pages doc) [];
             min_occurrences = of_nat (end_page - start_page) * (2 / 5 :: rat)
         in set (map fst (filter (\<lambda>(t, c). min_occurrences \<le> of_nat c) text_counts))))"

subsection \<open>is\_mostly\_uppercase\<close>

definition is_mostly_uppercase :: "string \<Rightarrow> py_error + bool" where
  "is_mostly_uppercase s =
     (let letters = filter isalpha s in
      if letters = [] then Inr False
      else
        (let uppercase_letters = filter isupper letters in
         case py_truediv (length uppercase_letters) (length letters) of
           Inl e \<Rightarrow> Inl e
         | Inr r \<Rightarrow> Inr (r > 4 / 5)))"

subsection \<open>is\_line\_in\_table\<close>

fun is_line_in_table :: "bbox \<Rightarrow> bbox list \<Rightarrow> bool" where
  "is_line_in_table line_bbox [] = False"
| "is_line_in_table (l_x0, l_y0, l_x1, l_y1) ((t_x0, t_y0, t_x1, t_y1) # rest) =
     (if l_x0 \<ge> t_x0 \<and> l_y0 \<ge> t_y0 \<and> l_x1 \<le> t_x1 \<and> l_y1 \<le> t_y1 then True
      else is_line_in_table (l_x0, l_y0, l_x1, l_y1) rest)"

subsection \<open>get\_dominant\_style\<close>

text \<open>\<^verbatim>\<open>round(x)\<close> on a float: to the nearest integer, a tie to the even one.\<close>

definition py_round :: "rat \<Rightarrow> int" where
  "py_round x =
     (let f = \<lfloor>x\<rfloor>; d = x - of_int f in
      if d < 1 / 2 then f else if 1 / 2 < d then f + 1 else if even f then f else f + 1)"

text \<open>\<^verbatim>\<open>re.search(r'bold|black|heavy', font, re.IGNORECASE)\<close>.\<close>

definition is_bold_font :: "string \<Rightarrow> bool" where
  "is_bold_font f =
     (let l = lower f in contains l ''bold'' \<or> contains l ''black'' \<or> contains l ''heavy'')"

definition span_style :: "span \<Rightarrow> style" where
  "span_style sp = (py_round (span_size sp), is_bold_font (span_font sp))"

definition get_dominant_style :: "raw_line \<Rightarrow> py_error + style" where
  "get_dominant_style line =
     (if spans line = [] then Inr (10, False)
      else
        (let style_counts =
               fold (\<lambda>sp sc. counter_add (span_style sp) (length (strip (span_text sp))) sc)
                 (spans line) []
         in case index0 (most_common_1 style_counts) of
              Inl e \<Rightarrow> Inl e
            | Inr (s, c) \<Rightarrow> Inr s))"

subsection \<open>get\_page\_layout\<close>

text \<open>The two divisions are reached only when \<open>total_sided_blocks\<close> is not zero.\<close>

definition get_page_layout :: "page \<Rightarrow> nat" where
  "get_page_layout p =
     (let midpoint = width p / 2; blocks = text_blocks p in
      if blocks = [] then 1
      else
        (let left_blocks = length (filter (\<lambda>b. b2 b < midpoint) blocks);
             right_blocks = length (filter (\<lambda>b. \<not> b2 b < midpoint \<and> b0 b > midpoint) blocks);
             total_sided_blocks = left_blocks + right_blocks
         in if total_sided_blocks = 0 then 1
            else if left_blocks > 0 \<and> right_blocks > 0 then
              (if (of_nat left_blocks / of_nat total_sided_blocks > (3 / 10 :: rat))
                  \<and> (of_nat right_blocks / of_nat total_sided_blocks > (3 / 10 :: rat))
               then 2 else 1)
            else 1))"

subsection \<open>process\_pdf: line extraction\<close>

text \<open>
  The key \<^verbatim>\<open>"id"\<close> of a line is the string \<^verbatim>\<open>f"{page_num}-{y0}"\<close>: the digits of the
  page number, a hyphen, and the printed float. A float prints as the shortest decimal
  that reads back as the same float, and \<^verbatim>\<open>-0.0\<close> prints as \<^verbatim>\<open>-0.0\<close>. So two such
  strings are equal exactly when the page numbers are equal and the floats are the same
  float: equal in value and, at zero, of the same sign. The string is kept as the triple
  of page number, value, and whether the float is the negative zero.
\<close>

type_synonym line_key = "nat \<times> rat \<times> bool"

text \<open>
  The dictionary appended to \<^verbatim>\<open>all_lines\<close>. The key \<^verbatim>\<open>"level"\<close> is absent (\<open>None\<close>)
  until heading levels are assigned.
\<close>

record line =
  page :: nat
  line_text :: string
  style :: style
  is_bold :: bool
  line_size :: int
  x0 :: rat
  y0 :: rat
  x1 :: rat
  y1 :: rat
  column :: nat
  line_id :: line_key
  level :: "string option"

text \<open>\<^verbatim>\<open>re.search(r'\b\d{4}\b', s)\<close>; the flag says whether the previous character is a word character.\<close>

fun has_year_from :: "bool \<Rightarrow> string \<Rightarrow> bool" where
  "has_year_from prev_word [] = False"
| "has_year_from prev_word (c # cs) =
     ((\<not> prev_word \<and>
        (case c # cs of
           d1 # d2 # d3 # d4 # rest \<Rightarrow>
             isdigit d1 \<and> isdigit d2 \<and> isdigit d3 \<and> isdigit d4 \<and>
             (case rest of [] \<Rightarrow> True | r # _ \<Rightarrow> \<not> is_word_char r)
         | _ \<Rightarrow> False))
      \<or> has_year_from (is_word_char c) cs)"

definition months :: "string list" where
  "months = [''jan'', ''feb'', ''mar'', ''apr'', ''may'', ''jun'', ''jul'',
             ''aug'', ''sep'', ''oct'', ''nov'', ''dec'']"

text \<open>The date test of lines 157-163.\<close>

definition is_date_line :: "string \<Rightarrow> bool" where
  "is_date_line line_text' =
     (let text_lower = lower line_text' in
      if has_year_from False text_lower then
        (if list_ex (\<lambda>month. contains text_lower month) months then
           (if length (split line_text') \<le> 4 then True else False)
         else False)
      else False)"

text \<open>\<^verbatim>\<open>re.match(r'^Page \d+\s*of\s*\d+$', s, re.I)\<close>.\<close>

definition is_page_of :: "string \<Rightarrow> bool" where
  "is_page_of s =
     (lower (take 5 s) = ''page '' \<and>
      (let r = drop 5 s; d1 = takeWhile isdigit r;
           r2 = dropWhile isspace (dropWhile isdigit r)
       in d1 \<noteq> [] \<and> lower (take 2 r2) = ''of'' \<and>
          (let r3 = dropWhile isspace (drop 2 r2); d2 = takeWhile isdigit r3;
               r4 = dropWhile isdigit r3
           in d2 \<noteq> [] \<and> (r4 = [] \<or> r4 = [CHR 0x0A]))))"

text \<open>
  \<^verbatim>\<open>table_areas\<close>: a page has an entry only when tables were found on it.
\<close>

definition table_areas :: "document \<Rightarrow> nat \<Rightarrow> bbox list option" where
  "table_areas doc page_num =
     (if page_num < length doc \<and> tables (doc ! page_num) \<noteq> []
      then Some (tables (doc ! page_num)) else None)"

text \<open>
  The body of the loop over the lines of a block (lines 150-187), on the pair of
  \<^verbatim>\<open>all_lines\<close> and \<^verbatim>\<open>style_counts\<close>.
\<close>

type_synonym corpus = "line list \<times> style counter"

definition admit_line ::
  "string set \<Rightarrow> bbox list \<Rightarrow> nat \<Rightarrow> nat \<Rightarrow> rat \<Rightarrow> raw_line \<Rightarrow> corpus \<Rightarrow> py_error + corpus" where
  "admit_line ignored_texts page_table_bboxes page_num num_columns page_midpoint rl st =
     (if spans rl = [] then Inr st
      else if is_line_in_table (bbox rl) page_table_bboxes then Inr st
      else
        (let line_text' = strip (concat (map span_text (spans rl))) in
         if line_text' = [] \<or> line_text' \<in> ignored_texts then Inr st
         else if is_date_line line_text' then Inr st
         else if is_page_of line_text' then Inr st
         else
           (case get_dominant_style rl of
              Inl e \<Rightarrow> Inl e
            | Inr style' \<Rightarrow>
               (case (bbox rl, st) of ((bx0, by0, bx1, by1), (all_lines, style_counts)) \<Rightarrow>
                 (let line_center_x = (bx0 + bx1) / 2;
                      column_index = (if num_columns = 2 \<and> line_center_x > page_midpoint
                                      then 1 else 0)
                  in Inr (all_lines @
                        [\<lparr>page = page_num, line_text = line_text', style = style',
                          is_bold = snd style', line_size = fst style',
                          x0 = bx0, y0 = by0, x1 = bx1, y1 = by1,
                          column = column_index,
                          line_id = (page_num, by0, by0 = 0 \<and> bbox_y0_minus_zero rl),
                          level = None\<rparr>],
                        counter_add style' 1 style_counts))))))"

text \<open>A \<^verbatim>\<open>for\<close> loop whose body may raise.\<close>

fun for_each :: "('a \<Rightarrow> 's \<Rightarrow> py_error + 's) \<Rightarrow> 'a list \<Rightarrow> 's \<Rightarrow> py_error + 's" where
  "for_each f [] s = Inr s"
| "for_each f (x # xs) s = (case f x s of Inl e \<Rightarrow> Inl e | Inr s' \<Rightarrow> for_each f xs s')"

definition extract_block ::
  "string set \<Rightarrow> bbox list \<Rightarrow> nat \<Rightarrow> nat \<Rightarrow> rat \<Rightarrow> block \<Rightarrow> corpus \<Rightarrow> py_error + corpus" where
  "extract_block ignored_texts page_table_bboxes page_num num_columns page_midpoint b st =
     (case lines b of
        None \<Rightarrow> Inr st
      | Some ls \<Rightarrow>
          for_each (admit_line ignored_texts page_table_bboxes page_num num_columns page_midpoint)
            ls st)"

definition extract_page ::
  "string set \<Rightarrow> document \<Rightarrow> nat \<times> page \<Rightarrow> corpus \<Rightarrow> py_error + corpus" where
  "extract_page ignored_texts doc np st =
     (case np of (page_num, p) \<Rightarrow>
       (let page_width = width p;
            page_table_bboxes = (case table_areas doc page_num of None \<Rightarrow> [] | Some ts \<Rightarrow> ts);
            num_columns = get_page_layout p;
            page_midpoint = page_width / 2
        in for_each
             (extract_block ignored_texts page_table_bboxes page_num num_columns page_midpoint)
             (dict_blocks p) st))"

definition extract_lines :: "document \<Rightarrow> py_error + corpus" where
  "extract_lines doc =
     for_each (extract_page (detect_headers_and_footers doc) doc) (enumerate 0 doc) ([], [])"

subsection \<open>process\_pdf: title identification\<close>

definition page_0_lines_top_half :: "document \<Rightarrow> line list \<Rightarrow> line list" where
  "page_0_lines_top_half doc all_lines =
     (let page_0_height = (case doc of [] \<Rightarrow> 1000 | p # _ \<Rightarrow> height p) in
      sort_key (\<lambda>x. (column x, y0 x))
        (filter (\<lambda>l. page l = 0 \<and> y0 l < page_0_height / 2) all_lines))"

definition py_max :: "int list \<Rightarrow> py_error + int" where
  "py_max xs = (case xs of [] \<Rightarrow> Inl ValueError | x # rest \<Rightarrow> Inr (fold max rest x))"

definition py_min :: "int list \<Rightarrow> py_error + int" where
  "py_min xs = (case xs of [] \<Rightarrow> Inl ValueError | x # rest \<Rightarrow> Inr (fold min rest x))"

text \<open>\<^verbatim>\<open>next(x for x in xs if P x)\<close> and \<^verbatim>\<open>xs.index(x)\<close>.\<close>

definition py_next :: "('a \<Rightarrow> bool) \<Rightarrow> 'a list \<Rightarrow> py_error + 'a" where
  "py_next P xs = (case find P xs of None \<Rightarrow> Inl StopIteration | Some x \<Rightarrow> Inr x)"

fun py_index :: "'a list \<Rightarrow> 'a \<Rightarrow> py_error + nat" where
  "py_index [] x = Inl ValueError"
| "py_index (y # ys) x =
     (if y = x then Inr 0
      else (case py_index ys x of Inl e \<Rightarrow> Inl e | Inr n \<Rightarrow> Inr (Suc n)))"

text \<open>
  The loop of lines 227-235 over the candidates from \<open>start_index\<close> on. The lines
  whose text and id the loop has recorded are kept as one list \<open>title_lines\<close>.
\<close>

fun accumulate_title :: "line \<Rightarrow> line option \<Rightarrow> line list \<Rightarrow> line list \<Rightarrow> line list" where
  "accumulate_title first_title_line last_line title_lines [] = title_lines"
| "accumulate_title first_title_line last_line title_lines (current_line # rest) =
     (if length title_lines \<ge> 2 then title_lines
      else
        (case last_line of
           Some l \<Rightarrow>
             if \<bar>y0 current_line - y0 l\<bar> > of_int (line_size l) * (5 / 2) then title_lines
             else if of_int (line_size current_line)
                       < of_int (line_size first_title_line) * (7 / 10 :: rat) then title_lines
             else accumulate_title first_title_line (Some current_line)
                    (title_lines @ [current_line]) rest
         | None \<Rightarrow>
             accumulate_title first_title_line (Some current_line)
               (title_lines @ [current_line]) rest))"

text \<open>The body of the \<^verbatim>\<open>try\<close> block (lines 203-236): the lines taken for the title.\<close>

definition title_lines_try :: "document \<Rightarrow> line list \<Rightarrow> py_error + line list" where
  "title_lines_try doc top_half =
     (let sizes = map line_size top_half in
      case py_max sizes of Inl e \<Rightarrow> Inl e | Inr max_size \<Rightarrow>
      case py_min sizes of Inl e \<Rightarrow> Inl e | Inr min_size \<Rightarrow>
        if max_size - min_size < 1 then
          (case index0 doc of Inl e \<Rightarrow> Inl e | Inr p0 \<Rightarrow>
            (let page_width = width p0; center_x = page_width / 2;
                 centered_bold_lines =
                   filter (\<lambda>l. is_bold l \<and> \<bar>(x0 l + x1 l) / 2 - center_x\<bar> < page_width * (1 / 10))
                     top_half
             in Inr (take 2 centered_bold_lines)))
        else
          (case py_next (\<lambda>l. line_size l = max_size) top_half of Inl e \<Rightarrow> Inl e
           | Inr first_title_line \<Rightarrow>
             (case py_index top_half first_title_line of Inl e \<Rightarrow> Inl e
              | Inr start_index \<Rightarrow>
                  Inr (accumulate_title first_title_line None [] (drop start_index top_half)))))"

text \<open>
  Lines 199-238: the lines consumed for the title; none when there is no candidate or
  the \<^verbatim>\<open>try\<close> block raises.
\<close>

definition title_lines_of :: "document \<Rightarrow> line list \<Rightarrow> line list" where
  "title_lines_of doc all_lines =
     (let top_half = page_0_lines_top_half doc all_lines in
      if top_half = [] then []
      else (case title_lines_try doc top_half of Inl e \<Rightarrow> [] | Inr ls \<Rightarrow> ls))"

text \<open>Lines 240-242.\<close>

definition exclude_title_lines :: "line_key set \<Rightarrow> line list \<Rightarrow> line list" where
  "exclude_title_lines title_line_ids all_lines =
     (if title_line_ids \<noteq> {} then filter (\<lambda>l. line_id l \<notin> title_line_ids) all_lines
      else all_lines)"

subsection \<open>process\_pdf: heading detection\<close>

definition counter_get :: "'k counter \<Rightarrow> 'k \<Rightarrow> nat" where
  "counter_get c k = (case map_of c k of None \<Rightarrow> 0 | Some n \<Rightarrow> n)"

text \<open>Lines 245-250.\<close>

definition deduce_body_style :: "style counter \<Rightarrow> py_error + style" where
  "deduce_body_style style_counts =
     (let non_bold_styles = map fst (filter (\<lambda>(s, c). \<not> snd s) style_counts) in
      if non_bold_styles \<noteq> [] then
        (case index0 (most_common_1 (map (\<lambda>s. (s, counter_get style_counts s)) non_bold_styles)) of
           Inl e \<Rightarrow> Inl e | Inr (s, c) \<Rightarrow> Inr s)
      else if style_counts \<noteq> [] then
        (case index0 (most_common_1 style_counts) of Inl e \<Rightarrow> Inl e | Inr (s, c) \<Rightarrow> Inr s)
      else Inr (10, False))"

text \<open>Lines 254-260: \<^verbatim>\<open>any\<close> over the lines, the conjunction evaluated left to right.\<close>

fun page_0_has_paragraphs :: "style \<Rightarrow> line list \<Rightarrow> py_error + bool" where
  "page_0_has_paragraphs body_style [] = Inr False"
| "page_0_has_paragraphs body_style (l # ls) =
     (if page l = 0 \<and> style l = body_style \<and> length (split (line_text l)) \<ge> 30 then
        (case is_mostly_uppercase (line_text l) of
           Inl e \<Rightarrow> Inl e
         | Inr upper \<Rightarrow>
             if \<not> upper \<and> length (line_text l) > 30 then Inr True
             else page_0_has_paragraphs body_style ls)
      else page_0_has_paragraphs body_style ls)"

text \<open>\<^verbatim>\<open>re.fullmatch(r"[\d\W_]+", s)\<close>.\<close>

definition only_digits_punct :: "string \<Rightarrow> bool" where
  "only_digits_punct s =
     (s \<noteq> [] \<and> list_all (\<lambda>c. isdigit c \<or> \<not> is_word_char c \<or> c = CHR ''_'') s)"

text \<open>Lines 266-275: whether the loop appends the line to \<^verbatim>\<open>initial_candidates\<close>.\<close>

definition is_candidate :: "bool \<Rightarrow> style \<Rightarrow> line \<Rightarrow> bool" where
  "is_candidate page_0_paragraphs body_style l =
     (if \<not> page_0_paragraphs \<and> page l = 0 then False
      else
        (let is_distinct = (line_size l > fst body_style) \<or> (is_bold l \<and> \<not> snd body_style) in
         if \<not> is_distinct then False
         else if \<not> (3 < length (line_text l) \<and> length (line_text l) < 250) then False
         else if length (split (line_text l)) > 25 then False
         else if only_digits_punct (line_text l) then False
         else if endswith (line_text l) ''.,;'' \<and> length (split (line_text l)) > 15 then False
         else True))"

definition initial_candidates :: "bool \<Rightarrow> style \<Rightarrow> line list \<Rightarrow> line list" where
  "initial_candidates page_0_paragraphs body_style all_lines =
     filter (is_candidate page_0_paragraphs body_style) all_lines"

text \<open>
  Line 281. Python fixes no iteration order for a set; \<open>set_iter\<close> gives the order in
  which the set built from a list is iterated.
\<close>

definition heading_styles :: "(style list \<Rightarrow> style list) \<Rightarrow> line list \<Rightarrow> style list" where
  "heading_styles set_iter cands =
     sort_key (\<lambda>s. (- fst s, - (of_bool (snd s) :: int))) (set_iter (map style cands))"

text \<open>\<^verbatim>\<open>f"H{n}"\<close> for a one-digit \<open>n\<close>; line 282 formats 1, 2 and 3 only.\<close>

definition level_name :: "nat \<Rightarrow> string" where
  "level_name n = ''H'' @ [char_of (48 + n)]"

definition style_to_level :: "style list \<Rightarrow> style \<Rightarrow> string option" where
  "style_to_level hs =
     fold (\<lambda>(i, s) m. m(s \<mapsto> level_name (i + 1))) (enumerate 0 (take 3 hs)) Map.empty"

text \<open>Lines 287-295.\<close>

definition refined_headings :: "bool \<Rightarrow> (style \<Rightarrow> string option) \<Rightarrow> line list \<Rightarrow> line list" where
  "refined_headings page_0_paragraphs stl cands =
     (let refined = filter (\<lambda>c. level c \<noteq> None) (map (\<lambda>c. c\<lparr>level := stl (style c)\<rparr>) cands)
      in if \<not> page_0_paragraphs then filter (\<lambda>h. page h \<noteq> 0) refined else refined)"

subsection \<open>process\_pdf: merging\<close>

record entry =
  entry_level :: "string option"
  entry_text :: string
  entry_page :: nat

text \<open>
  The inner loop (lines 304-313) on the list \<open>sh\<close> of \<^verbatim>\<open>sorted_headings\<close>, whose
  element \<open>i\<close> is the dictionary \<^verbatim>\<open>current\<close> that the loop updates in place.
\<close>

function merge_inner :: "line list \<Rightarrow> nat \<Rightarrow> nat \<Rightarrow> line list \<times> nat" where
  "merge_inner sh i j =
     (if j < length sh then
        (let current = sh ! i; next_line = sh ! j in
         if page next_line = page current \<and> column next_line = column current
            \<and> style next_line = style current
            \<and> \<bar>y0 next_line - y1 (sh ! (j - 1))\<bar> < of_int (line_size current) * (1 / 2)
         then merge_inner
                (sh[i := current\<lparr>line_text := line_text current @ '' '' @ line_text next_line,
                                  y1 := y1 next_line\<rparr>]) i (j + 1)
         else (sh, j))
      else (sh, j))"
  by pat_completeness auto
termination
  by (relation "measure (\<lambda>(sh, i, j). length sh - j)") auto

declare merge_inner.simps [simp del]

lemma merge_inner_bounds:
  "merge_inner sh i j = (sh', j') \<Longrightarrow> j \<le> j' \<and> length sh' = length sh"
proof (induction sh i j arbitrary: sh' j' rule: merge_inner.induct)
  case (1 sh i j)
  show ?case
  proof (cases "j < length sh \<and> page (sh ! j) = page (sh ! i) \<and> column (sh ! j) = column (sh ! i)
            \<and> style (sh ! j) = style (sh ! i)
            \<and> \<bar>y0 (sh ! j) - y1 (sh ! (j - 1))\<bar> < of_int (line_size (sh ! i)) * (1 / 2)")
    case True
    then have "merge_inner sh i j =
        merge_inner (sh[i := (sh ! i)\<lparr>line_text := line_text (sh ! i) @ '' '' @ line_text (sh ! j),
                                  y1 := y1 (sh ! j)\<rparr>]) i (j + 1)"
      by (subst merge_inner.simps) (simp add: Let_def)
    with "1.prems" have "j + 1 \<le> j' \<and> length sh' = length (sh[i := (sh ! i)\<lparr>line_text := line_text (sh ! i) @ '' '' @ line_text (sh ! j),
                                  y1 := y1 (sh ! j)\<rparr>])"
      using "1.IH" True by (auto simp: Let_def)
    then show ?thesis by simp
  next
    case False
    then have "merge_inner sh i j = (sh, j)"
      by (subst merge_inner.simps) (auto simp: Let_def)
    with "1.prems" show ?thesis by simp
  qed
qed

text \<open>The outer loop (lines 301-315).\<close>

function merge_outer :: "line list \<Rightarrow> nat \<Rightarrow> entry list \<Rightarrow> entry list" where
  "merge_outer sh i outline' =
     (if i < length sh then
        (case merge_inner sh i (i + 1) of (sh', j) \<Rightarrow>
          (let current = sh' ! i in
           merge_outer sh' j
             (outline' @ [\<lparr>entry_level = level current, entry_text = strip (line_text current),
                           entry_page = page current\<rparr>])))
      else outline')"
  by pat_completeness auto
termination
  apply (relation "measure (\<lambda>(sh, i, out). length sh - i)")
   apply simp
  subgoal for sh i outline' x y xa
    using merge_inner_bounds[of sh i "i + 1" x y] by (simp del: merge_inner.simps) arith
  done

declare merge_outer.simps [simp del]

subsection \<open>process\_pdf\<close>

record result =
  title :: string
  outline :: "entry list"

text \<open>Lines 281-298.\<close>

definition sorted_headings :: "(style list \<Rightarrow> style list) \<Rightarrow> bool \<Rightarrow> line list \<Rightarrow> line list" where
  "sorted_headings set_iter page_0_paragraphs cands =
     (let hs = heading_styles set_iter cands;
          stl = style_to_level hs;
          refined = refined_headings page_0_paragraphs stl cands
      in sort_key (\<lambda>x. (page x, column x, y0 x)) refined)"

text \<open>Lines 281-315.\<close>

definition build_outline :: "(style list \<Rightarrow> style list) \<Rightarrow> bool \<Rightarrow> line list \<Rightarrow> entry list" where
  "build_outline set_iter page_0_paragraphs cands =
     merge_outer (sorted_headings set_iter page_0_paragraphs cands) 0 []"

text \<open>Lines 189-317, from the extracted lines and their style counts.\<close>

definition analyse_lines ::
  "(style list \<Rightarrow> style list) \<Rightarrow> document \<Rightarrow> corpus \<Rightarrow> py_error + result" where
  "analyse_lines set_iter doc st =
     (case st of (all_lines, style_counts) \<Rightarrow>
       if all_lines = [] then Inr \<lparr>title = [], outline = []\<rparr>
       else
         (let title_lines = title_lines_of doc all_lines;
              doc_title = join_space (map line_text title_lines);
              title_line_ids = set (map line_id title_lines);
              remaining = exclude_title_lines title_line_ids all_lines
          in case deduce_body_style style_counts of
               Inl e \<Rightarrow> Inl e
             | Inr body_style \<Rightarrow>
                (case page_0_has_paragraphs body_style remaining of
                   Inl e \<Rightarrow> Inl e
                 | Inr page_0_paragraphs \<Rightarrow>
                    (let cands = initial_candidates page_0_paragraphs body_style remaining in
                     if cands = [] then Inr \<lparr>title = doc_title, outline = []\<rparr>
                     else Inr \<lparr>title = doc_title,
                               outline = build_outline set_iter page_0_paragraphs cands\<rparr>))))"

text \<open>Lines 123-317: \<^verbatim>\<open>process_pdf\<close> once the document is open.\<close>

definition process_pdf_body :: "(style list \<Rightarrow> style list) \<Rightarrow> document \<Rightarrow> py_error + result" where
  "process_pdf_body set_iter doc =
     (case extract_lines doc of
        Inl e \<Rightarrow> Inl e
      | Inr st \<Rightarrow> analyse_lines set_iter doc st)"

text \<open>
  The layout provider: the documents it can open by path, and the handles that are
  open. \<^verbatim>\<open>fitz.open\<close> raises for a path it cannot open and otherwise adds a handle.
\<close>

record provider =
  files :: "string \<Rightarrow> document option"
  open_handles :: "string list"

definition fitz_open :: "provider \<Rightarrow> string \<Rightarrow> provider \<times> (py_error + document)" where
  "fitz_open env pdf_path =
     (case files env pdf_path of
        None \<Rightarrow> (env, Inl FileNotFound)
      | Some doc \<Rightarrow> (env\<lparr>open_handles := pdf_path # open_handles env\<rparr>, Inr doc))"

text \<open>\<^verbatim>\<open>doc.close()\<close>, which \<^verbatim>\<open>process_pdf\<close> has no call of.\<close>

definition doc_close :: "provider \<Rightarrow> string \<Rightarrow> provider" where
  "doc_close env pdf_path = env\<lparr>open_handles := remove1 pdf_path (open_handles env)\<rparr>"

definition process_pdf ::
  "(style list \<Rightarrow> style list) \<Rightarrow> provider \<Rightarrow> string \<Rightarrow> provider \<times> (py_error + result)" where
  "process_pdf set_iter env pdf_path =
     (case fitz_open env pdf_path of
        (env', Inl e) \<Rightarrow> (env', Inl e)
      | (env', Inr doc) \<Rightarrow> (env', process_pdf_body set_iter doc))"

section \<open>Specification-side notions and example documents\<close>

subsection \<open>Example inputs\<close>

definition numbers_line :: line where
  "numbers_line =
     \<lparr>page = 0,
      line_text = ''1 2 3 4 5 6 7 8 9 10 11 12 13 14 15 16 17 18 19 20 21 22 23 24 25 26 27 28 29 30'',
      style = (10, False), is_bold = False, line_size = 10,
      x0 = 50, y0 = 500, x1 = 550, y1 = 512, column = 0, line_id = (0, 500, False), level = None\<rparr>"


subsection \<open>Counting\<close>

text \<open>Counting the keys of a list one by one, as both loops that fill a counter do.\<close>

definition tally :: "'k list \<Rightarrow> 'k counter \<Rightarrow> 'k counter" where
  "tally ks c = fold (\<lambda>k. counter_add k 1) ks c"


subsection \<open>Well-formed corpus\<close>

text \<open>
  What line 175-187 give every line of \<^verbatim>\<open>all_lines\<close>: the keys \<^verbatim>\<open>size\<close> and
  \<^verbatim>\<open>is_bold\<close> repeat the style, the id is made of page and \<^verbatim>\<open>y0\<close> (with the sign of a
  zero), no level yet.
\<close>

definition wf_line :: "line \<Rightarrow> bool" where
  "wf_line l = (line_size l = fst (style l) \<and> is_bold l = snd (style l)
                \<and> fst (line_id l) = page l \<and> fst (snd (line_id l)) = y0 l
                \<and> (snd (snd (line_id l)) \<longrightarrow> y0 l = 0) \<and> level l = None)"

definition corpus_inv :: "string set \<Rightarrow> corpus \<Rightarrow> bool" where
  "corpus_inv ignored st =
     (case st of (all_lines, style_counts) \<Rightarrow>
        list_all (\<lambda>l. wf_line l \<and> line_text l \<notin> ignored) all_lines
        \<and> style_counts = tally (map style all_lines) [])"

subsection \<open>Body style\<close>

text \<open>The number of lines of a list that have a given style.\<close>

definition style_frequency :: "line list \<Rightarrow> style \<Rightarrow> nat" where
  "style_frequency ls s = length (filter (\<lambda>l. style l = s) ls)"

text \<open>The lines that \<^verbatim>\<open>process_pdf\<close> retains for a document, and those left once the title lines are excluded.\<close>

definition retained_lines :: "document \<Rightarrow> line list" where
  "retained_lines doc =
     (case extract_lines doc of Inl e \<Rightarrow> [] | Inr (all_lines, style_counts) \<Rightarrow> all_lines)"

definition non_title_lines :: "document \<Rightarrow> line list" where
  "non_title_lines doc =
     (let all_lines = retained_lines doc in
      exclude_title_lines (set (map line_id (title_lines_of doc all_lines))) all_lines)"

text \<open>The body style \<^verbatim>\<open>process_pdf\<close> deduces for a document (lines 245-250 on the counter of line 167).\<close>

definition body_style_of :: "document \<Rightarrow> py_error + style" where
  "body_style_of doc =
     (case extract_lines doc of
        Inl e \<Rightarrow> Inl e
      | Inr (all_lines, style_counts) \<Rightarrow> deduce_body_style style_counts)"

text \<open>
  The specification's body style: the same deduction, on frequencies counted over the
  retained non-title lines, one occurrence per line.
\<close>

definition spec_body_style :: "document \<Rightarrow> py_error + style" where
  "spec_body_style doc = deduce_body_style (tally (map style (non_title_lines doc)) [])"

text \<open>
  A one-page document: two lines of size 20 at the top, which become the title, and one
  line of size 12.
\<close>

definition title_page :: document where
  "title_page =
     [\<lparr>width = 600, height = 800, text_blocks = [], tables = [],
       dict_blocks =
         [\<lparr>lines = Some
            [\<lparr>bbox = (100, 10, 500, 30), bbox_y0_minus_zero = False,
               spans = [\<lparr>span_text = ''Big Title'', span_font = ''Arial'', span_size = 20\<rparr>]\<rparr>,
             \<lparr>bbox = (100, 40, 500, 60), bbox_y0_minus_zero = False,
               spans = [\<lparr>span_text = ''Second Line'', span_font = ''Arial'', span_size = 20\<rparr>]\<rparr>,
             \<lparr>bbox = (100, 100, 500, 112), bbox_y0_minus_zero = False,
               spans = [\<lparr>span_text = ''body text here'', span_font = ''Arial'',
                         span_size = 12\<rparr>]\<rparr>]\<rparr>]\<rparr>]"

definition title_page_lines :: "line list" where
  "title_page_lines =
     [\<lparr>page = 0, line_text = ''Big Title'', style = (20, False), is_bold = False,
       line_size = 20, x0 = 100, y0 = 10, x1 = 500, y1 = 30, column = 0,
       line_id = (0, 10, False), level = None\<rparr>,
      \<lparr>page = 0, line_text = ''Second Line'', style = (20, False), is_bold = False,
       line_size = 20, x0 = 100, y0 = 40, x1 = 500, y1 = 60, column = 0,
       line_id = (0, 40, False), level = None\<rparr>,
      \<lparr>page = 0, line_text = ''body text here'', style = (12, False), is_bold = False,
       line_size = 12, x0 = 100, y0 = 100, x1 = 500, y1 = 112, column = 0,
       line_id = (0, 100, False), level = None\<rparr>]"

subsection \<open>Repeating headers and footers\<close>










subsection \<open>Runs of merged headings\<close>

text \<open>The test of lines 306-308, for the run's first line, the line before and the next line.\<close>

definition mergeable :: "line \<Rightarrow> line \<Rightarrow> line \<Rightarrow> bool" where
  "mergeable current prev next_line =
     (page next_line = page current \<and> column next_line = column current
      \<and> style next_line = style current
      \<and> \<bar>y0 next_line - y1 prev\<bar> < of_int (line_size current) * (1 / 2))"

text \<open>The lines that follow a run's first line and join it, and the lines left over.\<close>

fun absorb :: "line \<Rightarrow> line \<Rightarrow> line list \<Rightarrow> line list \<times> line list" where
  "absorb current prev [] = ([], [])"
| "absorb current prev (n # ns) =
     (if mergeable current prev n
      then (case absorb current n ns of (a, r) \<Rightarrow> (n # a, r))
      else ([], n # ns))"

text \<open>The sorted headings cut into runs: each run becomes one outline entry.\<close>

fun runs_from :: "line \<Rightarrow> line \<Rightarrow> line list \<Rightarrow> line list \<Rightarrow> line list list" where
  "runs_from current prev acc [] = [acc]"
| "runs_from current prev acc (n # ns) =
     (if mergeable current prev n then runs_from current n (acc @ [n]) ns
      else acc # runs_from n n [n] ns)"

definition runs :: "line list \<Rightarrow> line list list" where
  "runs sh = (case sh of [] \<Rightarrow> [] | c # cs \<Rightarrow> runs_from c c [c] cs)"

text \<open>
  The outline entry of a run: level and page of its first line, the texts joined by
  single spaces and stripped.
\<close>

definition run_entry :: "line list \<Rightarrow> entry" where
  "run_entry r =
     \<lparr>entry_level = level (hd r), entry_text = strip (join_space (map line_text r)),
      entry_page = page (hd r)\<rparr>"

subsection \<open>A two-page example with headings\<close>

definition one_span_line :: "bbox \<Rightarrow> string \<Rightarrow> string \<Rightarrow> rat \<Rightarrow> raw_line" where
  "one_span_line b t f z =
     \<lparr>bbox = b, bbox_y0_minus_zero = False,
      spans = [\<lparr>span_text = t, span_font = f, span_size = z\<rparr>]\<rparr>"

text \<open>
  Page 0 holds a title and an author line; page 1 holds a chapter heading, a section
  heading broken over two lines, three body lines, a subsection heading and a bold note
  in a fourth heading style.
\<close>

definition heading_doc :: document where
  "heading_doc =
     [\<lparr>width = 600, height = 800, text_blocks = [], tables = [],
       dict_blocks =
         [\<lparr>lines = Some
            [one_span_line (100, 100, 500, 130) ''Report Title'' ''Arial'' 24,
             one_span_line (200, 140, 400, 155) ''Author Name'' ''Arial'' 12]\<rparr>]\<rparr>,
      \<lparr>width = 600, height = 800, text_blocks = [], tables = [],
       dict_blocks =
         [\<lparr>lines = Some
            [one_span_line (50, 50, 300, 70) ''Chapter One'' ''Arial-Bold'' 18,
             one_span_line (50, 100, 300, 116) ''Introduction and'' ''Arial-Bold'' 14,
             one_span_line (50, 118, 300, 134) ''Overview'' ''Arial-Bold'' 14,
             one_span_line (50, 150, 550, 162) ''First body line of the report'' ''Arial'' 10,
             one_span_line (50, 164, 550, 176) ''Second body line of the report'' ''Arial'' 10,
             one_span_line (50, 178, 550, 190) ''Third body line of the report'' ''Arial'' 10,
             one_span_line (50, 220, 300, 234) ''Details'' ''Arial-Bold'' 12,
             one_span_line (50, 260, 300, 272) ''Minor note'' ''Arial-Bold'' 11]\<rparr>]\<rparr>]"

text \<open>The sorted surviving heading candidates of \<open>heading_doc\<close>.\<close>

definition heading_sorted :: "line list" where
  "heading_sorted =
     [\<lparr>page = 1, line_text = ''Chapter One'', style = (18, True), is_bold = True,
       line_size = 18, x0 = 50, y0 = 50, x1 = 300, y1 = 70, column = 0,
       line_id = (1, 50, False), level = Some ''H1''\<rparr>,
      \<lparr>page = 1, line_text = ''Introduction and'', style = (14, True), is_bold = True,
       line_size = 14, x0 = 50, y0 = 100, x1 = 300, y1 = 116, column = 0,
       line_id = (1, 100, False), level = Some ''H2''\<rparr>,
      \<lparr>page = 1, line_text = ''Overview'', style = (14, True), is_bold = True,
       line_size = 14, x0 = 50, y0 = 118, x1 = 300, y1 = 134, column = 0,
       line_id = (1, 118, False), level = Some ''H2''\<rparr>,
      \<lparr>page = 1, line_text = ''Details'', style = (12, True), is_bold = True,
       line_size = 12, x0 = 50, y0 = 220, x1 = 300, y1 = 234, column = 0,
       line_id = (1, 220, False), level = Some ''H3''\<rparr>]"

definition heading_outline :: "entry list" where
  "heading_outline =
     [\<lparr>entry_level = Some ''H1'', entry_text = ''Chapter One'', entry_page = 1\<rparr>,
      \<lparr>entry_level = Some ''H2'', entry_text = ''Introduction and Overview'', entry_page = 1\<rparr>,
      \<lparr>entry_level = Some ''H3'', entry_text = ''Details'', entry_page = 1\<rparr>]"

subsection \<open>Ranking of heading styles\<close>

text \<open>Style \<open>A\<close> ranks above style \<open>B\<close>: larger size, or equal size and bold before non-bold.\<close>

definition ranks_above :: "style \<Rightarrow> style \<Rightarrow> bool" where
  "ranks_above A B = (fst A > fst B \<or> (fst A = fst B \<and> snd A \<and> \<not> snd B))"

text \<open>An iteration order for sets: each element of the list once, in some order.\<close>

definition set_iteration :: "(style list \<Rightarrow> style list) \<Rightarrow> bool" where
  "set_iteration f = (\<forall>xs. distinct (f xs) \<and> set (f xs) = set xs)"

text \<open>The initial heading candidates of \<open>heading_doc\<close>.\<close>

definition heading_cands :: "line list" where
  "heading_cands = initial_candidates False (10, False) (non_title_lines heading_doc)"

subsection \<open>The title in the specification's words\<close>



subsection \<open>A page with two lines at the same height\<close>

text \<open>
  The title line and a smaller note beside it share \<open>y0 = 10\<close>; a third line follows
  further down.
\<close>

definition same_height_page :: document where
  "same_height_page =
     [\<lparr>width = 600, height = 800, text_blocks = [], tables = [],
       dict_blocks =
         [\<lparr>lines = Some
            [one_span_line (100, 10, 300, 30) ''Big Title'' ''Arial'' 20,
             one_span_line (320, 10, 500, 30) ''side note'' ''Arial'' 12,
             one_span_line (100, 100, 500, 112) ''body text here'' ''Arial'' 12]\<rparr>]\<rparr>]"

definition title_line :: line where
  "title_line =
     \<lparr>page = 0, line_text = ''Big Title'', style = (20, False), is_bold = False,
      line_size = 20, x0 = 100, y0 = 10, x1 = 300, y1 = 30, column = 0,
      line_id = (0, 10, False), level = None\<rparr>"

definition side_note_line :: line where
  "side_note_line =
     \<lparr>page = 0, line_text = ''side note'', style = (12, False), is_bold = False,
      line_size = 12, x0 = 320, y0 = 10, x1 = 500, y1 = 30, column = 0,
      line_id = (0, 10, False), level = None\<rparr>"

text \<open>
  The same page with both lines at the top edge: the title's \<^verbatim>\<open>bbox[1]\<close> is \<^verbatim>\<open>0.0\<close>, the
  note's is \<^verbatim>\<open>-0.0\<close>.
\<close>

definition zero_height_page :: document where
  "zero_height_page =
     [\<lparr>width = 600, height = 800, text_blocks = [], tables = [],
       dict_blocks =
         [\<lparr>lines = Some
            [\<lparr>bbox = (100, 0, 300, 20), bbox_y0_minus_zero = False,
              spans = [\<lparr>span_text = ''Big Title'', span_font = ''Arial'', span_size = 20\<rparr>]\<rparr>,
             \<lparr>bbox = (320, 0, 500, 20), bbox_y0_minus_zero = True,
              spans = [\<lparr>span_text = ''side note'', span_font = ''Arial'', span_size = 12\<rparr>]\<rparr>,
             one_span_line (100, 100, 500, 112) ''body text here'' ''Arial'' 12]\<rparr>]\<rparr>]"

definition zero_title_line :: line where
  "zero_title_line =
     \<lparr>page = 0, line_text = ''Big Title'', style = (20, False), is_bold = False,
      line_size = 20, x0 = 100, y0 = 0, x1 = 300, y1 = 20, column = 0,
      line_id = (0, 0, False), level = None\<rparr>"

definition minus_zero_note_line :: line where
  "minus_zero_note_line =
     \<lparr>page = 0, line_text = ''side note'', style = (12, False), is_bold = False,
      line_size = 12, x0 = 320, y0 = 0, x1 = 500, y1 = 20, column = 0,
      line_id = (0, 0, True), level = None\<rparr>"

subsection \<open>A provider with one document\<close>

definition report_env :: provider where
  "report_env = \<lparr>files = [''report.pdf'' \<mapsto> title_page], open_handles = []\<rparr>"

section \<open>Properties\<close>

subsection \<open>The uppercase test and the page-0 gate\<close>

lemma is_mostly_uppercase_Inr: "\<exists>b. is_mostly_uppercase s = Inr b"
  by (auto simp add: is_mostly_uppercase_def py_truediv_def Let_def)

lemma page_0_has_paragraphs_Inr: "\<exists>g. page_0_has_paragraphs body ls = Inr g"
proof (induction ls)
  case Nil
  show ?case by auto
next
  case (Cons l ls)
  obtain u where u: "is_mostly_uppercase (line_text l) = Inr u"
    using is_mostly_uppercase_Inr by blast
  with Cons show ?case by auto
qed

lemma letterless_gate:
  assumes "l \<in> set ls" "page l = 0" "style l = body" "30 \<le> length (split (line_text l))"
    "30 < length (line_text l)" "filter isalpha (line_text l) = []"
  shows "page_0_has_paragraphs body ls = Inr True"
  using assms
proof (induction ls)
  case Nil
  then show ?case by simp
next
  case (Cons a ls)
  obtain u where u: "is_mostly_uppercase (line_text a) = Inr u"
    using is_mostly_uppercase_Inr by blast
  show ?case
  proof (cases "a = l")
    case True
    have "is_mostly_uppercase (line_text l) = Inr False"
      using Cons.prems(6) by (simp add: is_mostly_uppercase_def)
    with True Cons.prems show ?thesis by simp
  next
    case False
    with Cons have "page_0_has_paragraphs body ls = Inr True" by simp
    with u show ?thesis by simp
  qed
qed

text \<open>
  C9. The predominantly-uppercase test never raises (its division is reached only with
  a non-zero number of letters), it returns false for every string without alphabetic
  characters, and so a letterless page-0 line in body style with at least 30 words and
  more than 30 characters opens the page-0 paragraph gate.
\<close>

theorem is_mostly_uppercase_total:
  "(\<exists>b. is_mostly_uppercase s = Inr b)
   \<and> (filter isalpha s = [] \<longrightarrow> is_mostly_uppercase s = Inr False)
   \<and> (l \<in> set ls \<and> page l = 0 \<and> style l = body \<and> 30 \<le> length (split (line_text l))
        \<and> 30 < length (line_text l) \<and> filter isalpha (line_text l) = []
      \<longrightarrow> page_0_has_paragraphs body ls = Inr True)"
proof (intro conjI impI)
  show "\<exists>b. is_mostly_uppercase s = Inr b" by (rule is_mostly_uppercase_Inr)
next
  assume "filter isalpha s = []"
  then show "is_mostly_uppercase s = Inr False" by (simp add: is_mostly_uppercase_def)
next
  assume "l \<in> set ls \<and> page l = 0 \<and> style l = body \<and> 30 \<le> length (split (line_text l))
        \<and> 30 < length (line_text l) \<and> filter isalpha (line_text l) = []"
  then show "page_0_has_paragraphs body ls = Inr True"
    using letterless_gate[of l ls body] by blast
qed

theorem is_mostly_uppercase_total_witness:
  "filter isalpha ''12 - 34'' = []
   \<and> is_mostly_uppercase ''12 - 34'' = Inr False
   \<and> numbers_line \<in> set [numbers_line] \<and> page numbers_line = 0
   \<and> style numbers_line = (10, False)
   \<and> 30 \<le> length (split (line_text numbers_line))
   \<and> 30 < length (line_text numbers_line)
   \<and> filter isalpha (line_text numbers_line) = []
   \<and> page_0_has_paragraphs (10, False) [numbers_line] = Inr True"
proof -
  have a: "filter isalpha ''12 - 34'' = []"
    by (simp add: isalpha_def isupper_def islower_def)
  have b: "filter isalpha (line_text numbers_line) = []"
    by (simp add: numbers_line_def isalpha_def isupper_def islower_def)
  have c: "30 \<le> length (split (line_text numbers_line))"
    by (simp add: numbers_line_def split_def isspace_def)
  have d: "30 < length (line_text numbers_line)"
    by (simp add: numbers_line_def)
  have e: "page numbers_line = 0" "style numbers_line = (10, False)"
    by (simp_all add: numbers_line_def)
  from is_mostly_uppercase_total[of "''12 - 34''" numbers_line "[numbers_line]" "(10, False)"]
    a b c d e
  show ?thesis by simp
qed


subsection \<open>Counters\<close>

lemma counter_add_keys:
  "map fst (counter_add k n c) = (if k \<in> fst ` set c then map fst c else map fst c @ [k])"
  by (induction c) (auto simp: rev_image_eqI)

lemma counter_add_key_set: "fst ` set (counter_add k n c) = insert k (fst ` set c)"
proof -
  have "set (map fst (counter_add k n c)) = insert k (fst ` set c)"
    unfolding counter_add_keys by auto
  then show ?thesis by simp
qed

lemma counter_add_distinct:
  "distinct (map fst c) \<Longrightarrow> distinct (map fst (counter_add k n c))"
  unfolding counter_add_keys by auto

lemma counter_get_add:
  "counter_get (counter_add k n c) k' =
     (if k' = k then counter_get c k + n else counter_get c k')"
  by (induction c) (auto simp: counter_get_def)

lemma tally_keys: "fst ` set (tally ks c) = fst ` set c \<union> set ks"
  unfolding tally_def by (induction ks arbitrary: c) (simp_all add: counter_add_key_set)

lemma tally_distinct: "distinct (map fst c) \<Longrightarrow> distinct (map fst (tally ks c))"
  unfolding tally_def by (induction ks arbitrary: c) (auto simp: counter_add_distinct)

lemma tally_get: "counter_get (tally ks c) k = counter_get c k + count_list ks k"
  unfolding tally_def by (induction ks arbitrary: c) (auto simp: counter_get_add)

lemma tally_get_empty: "counter_get (tally ks []) k = count_list ks k"
  unfolding tally_get by (simp add: counter_get_def)

lemma counter_get_entry:
  "distinct (map fst c) \<Longrightarrow> (k, n) \<in> set c \<Longrightarrow> counter_get c k = n"
  by (simp add: counter_get_def)

lemma tally_entry:
  "(k, n) \<in> set (tally ks []) \<longleftrightarrow> k \<in> set ks \<and> n = count_list ks k"
proof
  assume h: "(k, n) \<in> set (tally ks [])"
  have d: "distinct (map fst (tally ks []))" by (simp add: tally_distinct)
  from h have "k \<in> fst ` set (tally ks [])" by force
  then have k: "k \<in> set ks" by (simp add: tally_keys)
  from counter_get_entry[OF d h] have "n = count_list ks k"
    by (simp add: tally_get_empty)
  with k show "k \<in> set ks \<and> n = count_list ks k" by simp
next
  assume h: "k \<in> set ks \<and> n = count_list ks k"
  then have "k \<in> fst ` set (tally ks [])" by (simp add: tally_keys)
  then obtain m where m: "(k, m) \<in> set (tally ks [])" by auto
  have d: "distinct (map fst (tally ks []))" by (simp add: tally_distinct)
  from counter_get_entry[OF d m] have "m = count_list ks k"
    by (simp add: tally_get_empty)
  with m h show "(k, n) \<in> set (tally ks [])" by simp
qed

lemma fold_best:
  "fold (\<lambda>y best. if snd best < snd y then y else best) xs (x :: 'k \<times> nat) = b \<Longrightarrow>
     b \<in> set (x # xs) \<and> (\<forall>y\<in>set (x # xs). snd y \<le> snd b)"
proof (induction xs arbitrary: x)
  case Nil
  then show ?case by simp
next
  case (Cons y ys)
  show ?case
  proof (cases "snd x < snd y")
    case True
    with Cons.prems have "fold (\<lambda>y best. if snd best < snd y then y else best) ys y = b" by simp
    from Cons.IH[OF this] True show ?thesis by force
  next
    case False
    with Cons.prems have "fold (\<lambda>y best. if snd best < snd y then y else best) ys x = b" by simp
    from Cons.IH[OF this] False show ?thesis by force
  qed
qed

lemma most_common_1_nonempty:
  assumes "(c :: 'k counter) \<noteq> []"
  shows "\<exists>k n. most_common_1 c = [(k, n)] \<and> (k, n) \<in> set c \<and> (\<forall>(k', n')\<in>set c. n' \<le> n)"
proof -
  from assms obtain x xs where c: "c = x # xs" by (cases c) auto
  obtain k n where b: "fold (\<lambda>y best. if snd best < snd y then y else best) xs x = (k, n)"
    by (cases "fold (\<lambda>y best. if snd best < snd y then y else best) xs x") auto
  from fold_best[OF b] c b show ?thesis by force
qed


subsection \<open>Line extraction\<close>

lemma for_each_invariant:
  assumes "\<And>x s s'. x \<in> set xs \<Longrightarrow> P s \<Longrightarrow> f x s = Inr s' \<Longrightarrow> P s'"
    and "P s" and "for_each f xs s = Inr s'"
  shows "P s'"
  using assms
proof (induction xs arbitrary: s)
  case Nil
  then show ?case by simp
next
  case (Cons x xs)
  from Cons.prems(3) obtain s1 where s1: "f x s = Inr s1" and rest: "for_each f xs s1 = Inr s'"
    by (auto split: sum.splits)
  have p1: "P s1" using Cons.prems(1)[of x s s1] Cons.prems(2) s1 by simp
  show ?case
  proof (rule Cons.IH[OF _ p1 rest])
    fix y t t'
    assume "y \<in> set xs" "P t" "f y t = Inr t'"
    then show "P t'" using Cons.prems(1)[of y t t'] by simp
  qed
qed

lemma for_each_total:
  assumes "\<And>x s. x \<in> set xs \<Longrightarrow> \<exists>s'. f x s = Inr s'"
  shows "\<exists>s'. for_each f xs s = Inr s'"
  using assms
proof (induction xs arbitrary: s)
  case Nil
  then show ?case by simp
next
  case (Cons x xs)
  from Cons.prems[of x s] obtain s1 where s1: "f x s = Inr s1" by auto
  have "\<exists>s2. for_each f xs s1 = Inr s2"
  proof (rule Cons.IH)
    fix y t
    assume "y \<in> set xs"
    then show "\<exists>s'. f y t = Inr s'" using Cons.prems[of y t] by simp
  qed
  with s1 show ?case by simp
qed

lemma counter_add_nonempty: "counter_add k n c \<noteq> []"
  by (induction k n c rule: counter_add.induct) auto

lemma fold_counter_add_nonempty:
  "xs \<noteq> [] \<or> c \<noteq> [] \<Longrightarrow> fold (\<lambda>x sc. counter_add (g x) (h x) sc) xs c \<noteq> []"
  by (induction xs arbitrary: c) (auto simp: counter_add_nonempty)

lemma get_dominant_style_Inr: "\<exists>s. get_dominant_style rl = Inr s"
proof (cases "spans rl = []")
  case True
  then show ?thesis by (auto simp add: get_dominant_style_def)
next
  case False
  let ?c = "fold (\<lambda>sp sc. counter_add (span_style sp) (length (strip (span_text sp))) sc)
              (spans rl) []"
  from False have "?c \<noteq> []" by (intro fold_counter_add_nonempty) simp
  from most_common_1_nonempty[OF this] obtain k n where "most_common_1 ?c = [(k, n)]" by auto
  with False show ?thesis by (simp add: get_dominant_style_def index0_def)
qed

lemma tally_snoc: "tally (ks @ [k]) c = counter_add k 1 (tally ks c)"
  by (simp add: tally_def)

lemma admit_line_inv:
  assumes "corpus_inv ignored st"
    and "admit_line ignored tbs page_num num_columns page_midpoint rl st = Inr st'"
  shows "corpus_inv ignored st'"
proof -
  obtain ls sc where st: "st = (ls, sc)" by (cases st) auto
  obtain bx0 by0 bx1 by1 where bb: "bbox rl = (bx0, by0, bx1, by1)" by (cases "bbox rl") auto
  obtain sty where sty: "get_dominant_style rl = Inr sty" using get_dominant_style_Inr by blast
  from assms(2) have "st' = st \<or>
      (strip (concat (map span_text (spans rl))) \<notin> ignored \<and>
       (\<exists>col. st' = (ls @ [\<lparr>page = page_num, line_text = strip (concat (map span_text (spans rl))),
                     style = sty, is_bold = snd sty, line_size = fst sty,
                     x0 = bx0, y0 = by0, x1 = bx1, y1 = by1,
                     column = col, line_id = (page_num, by0, by0 = 0 \<and> bbox_y0_minus_zero rl),
                     level = None\<rparr>],
              counter_add sty 1 sc)))"
    unfolding admit_line_def st bb sty by (auto simp add: Let_def split: if_splits)
  then show ?thesis
  proof
    assume "st' = st"
    with assms(1) show ?thesis by simp
  next
    assume "strip (concat (map span_text (spans rl))) \<notin> ignored \<and>
       (\<exists>col. st' = (ls @ [\<lparr>page = page_num, line_text = strip (concat (map span_text (spans rl))),
                     style = sty, is_bold = snd sty, line_size = fst sty,
                     x0 = bx0, y0 = by0, x1 = bx1, y1 = by1,
                     column = col, line_id = (page_num, by0, by0 = 0 \<and> bbox_y0_minus_zero rl),
                     level = None\<rparr>],
              counter_add sty 1 sc))"
    then obtain col where h: "strip (concat (map span_text (spans rl))) \<notin> ignored"
      "st' = (ls @ [\<lparr>page = page_num, line_text = strip (concat (map span_text (spans rl))),
                     style = sty, is_bold = snd sty, line_size = fst sty,
                     x0 = bx0, y0 = by0, x1 = bx1, y1 = by1,
                     column = col, line_id = (page_num, by0, by0 = 0 \<and> bbox_y0_minus_zero rl),
                     level = None\<rparr>],
              counter_add sty 1 sc)" by blast
    with assms(1) show ?thesis
      unfolding st corpus_inv_def by (simp add: wf_line_def tally_snoc)
  qed
qed

lemma admit_line_Inr:
  "\<exists>st'. admit_line ignored tbs page_num num_columns page_midpoint rl st = Inr st'"
proof -
  obtain ls sc where st: "st = (ls, sc)" by (cases st) auto
  obtain bx0 by0 bx1 by1 where bb: "bbox rl = (bx0, by0, bx1, by1)" by (cases "bbox rl") auto
  obtain sty where sty: "get_dominant_style rl = Inr sty" using get_dominant_style_Inr by blast
  show ?thesis unfolding admit_line_def st bb sty by (simp add: Let_def)
qed

lemma extract_block_inv:
  assumes "corpus_inv ignored st"
    and "extract_block ignored tbs page_num num_columns page_midpoint b st = Inr st'"
  shows "corpus_inv ignored st'"
proof (cases "lines b")
  case None
  with assms show ?thesis by (simp add: extract_block_def)
next
  case (Some ls)
  with assms(2) have run:
    "for_each (admit_line ignored tbs page_num num_columns page_midpoint) ls st = Inr st'"
    by (simp add: extract_block_def)
  show ?thesis
  proof (rule for_each_invariant[where P = "corpus_inv ignored", OF _ assms(1) run])
    fix x s s'
    assume "corpus_inv ignored s"
      "admit_line ignored tbs page_num num_columns page_midpoint x s = Inr s'"
    then show "corpus_inv ignored s'" by (rule admit_line_inv)
  qed
qed

lemma extract_block_Inr:
  "\<exists>st'. extract_block ignored tbs page_num num_columns page_midpoint b st = Inr st'"
proof (cases "lines b")
  case None
  then show ?thesis by (simp add: extract_block_def)
next
  case (Some ls)
  have "\<exists>st'. for_each (admit_line ignored tbs page_num num_columns page_midpoint) ls st = Inr st'"
    by (rule for_each_total) (rule admit_line_Inr)
  with Some show ?thesis by (simp add: extract_block_def)
qed

lemma extract_page_inv:
  assumes "corpus_inv ignored st" and "extract_page ignored doc np st = Inr st'"
  shows "corpus_inv ignored st'"
proof -
  obtain page_num p where np: "np = (page_num, p)" by (cases np) auto
  from assms(2) have run: "for_each
      (extract_block ignored (case table_areas doc page_num of None \<Rightarrow> [] | Some ts \<Rightarrow> ts)
         page_num (get_page_layout p) (width p / 2)) (dict_blocks p) st = Inr st'"
    by (simp add: extract_page_def np Let_def)
  show ?thesis
  proof (rule for_each_invariant[where P = "corpus_inv ignored", OF _ assms(1) run])
    fix x s s'
    assume "corpus_inv ignored s"
      "extract_block ignored (case table_areas doc page_num of None \<Rightarrow> [] | Some ts \<Rightarrow> ts)
         page_num (get_page_layout p) (width p / 2) x s = Inr s'"
    then show "corpus_inv ignored s'" by (rule extract_block_inv)
  qed
qed

lemma extract_page_Inr: "\<exists>st'. extract_page ignored doc np st = Inr st'"
proof -
  obtain page_num p where np: "np = (page_num, p)" by (cases np) auto
  have "\<exists>st'. for_each
      (extract_block ignored (case table_areas doc page_num of None \<Rightarrow> [] | Some ts \<Rightarrow> ts)
         page_num (get_page_layout p) (width p / 2)) (dict_blocks p) st = Inr st'"
    by (rule for_each_total) (rule extract_block_Inr)
  then show ?thesis by (simp add: extract_page_def np Let_def)
qed

lemma extract_lines_inv:
  assumes "extract_lines doc = Inr st"
  shows "corpus_inv (detect_headers_and_footers doc) st"
proof -
  have init: "corpus_inv (detect_headers_and_footers doc) ([], [])"
    by (simp add: corpus_inv_def tally_def)
  have run: "for_each (extract_page (detect_headers_and_footers doc) doc) (enumerate 0 doc)
               ([], []) = Inr st"
    using assms by (simp add: extract_lines_def)
  show ?thesis
  proof (rule for_each_invariant[where P = "corpus_inv (detect_headers_and_footers doc)",
        OF _ init run])
    fix x s s'
    assume "corpus_inv (detect_headers_and_footers doc) s"
      "extract_page (detect_headers_and_footers doc) doc x s = Inr s'"
    then show "corpus_inv (detect_headers_and_footers doc) s'" by (rule extract_page_inv)
  qed
qed

lemma extract_lines_Inr: "\<exists>st. extract_lines doc = Inr st"
  unfolding extract_lines_def by (rule for_each_total) (rule extract_page_Inr)

subsection \<open>Body style deduction\<close>

lemma count_list_map: "count_list (map f xs) y = length (filter (\<lambda>x. f x = y) xs)"
  by (induction xs) auto

lemma deduce_body_style_tally:
  fixes ss :: "style list"
  shows "\<exists>b. deduce_body_style (tally ss []) = Inr b \<and>
     (if \<exists>s\<in>set ss. \<not> snd s
      then \<not> snd b \<and> b \<in> set ss
           \<and> (\<forall>s\<in>set ss. \<not> snd s \<longrightarrow> count_list ss s \<le> count_list ss b)
      else if ss \<noteq> [] then b \<in> set ss \<and> (\<forall>s\<in>set ss. count_list ss s \<le> count_list ss b)
      else b = (10, False))"
proof -
  let ?sc = "tally ss []"
  let ?nb = "map fst (filter (\<lambda>(s, c). \<not> snd s) ?sc)"
  let ?c' = "map (\<lambda>s. (s, counter_get ?sc s)) ?nb"
  have nb_set: "set ?nb = {s \<in> set ss. \<not> snd s}"
  proof (intro set_eqI iffI)
    fix s assume "s \<in> set ?nb"
    then obtain c where "(s, c) \<in> set ?sc" "\<not> snd s" by auto
    then show "s \<in> {s \<in> set ss. \<not> snd s}" by (simp add: tally_entry)
  next
    fix s assume "s \<in> {s \<in> set ss. \<not> snd s}"
    then have "(s, count_list ss s) \<in> set ?sc" "\<not> snd s" by (simp_all add: tally_entry)
    then have "(s, count_list ss s) \<in> set (filter (\<lambda>(s, c). \<not> snd s) ?sc)" by simp
    then show "s \<in> set ?nb" by force
  qed
  show ?thesis
  proof (cases "\<exists>s\<in>set ss. \<not> snd s")
    case True
    then obtain s0 where "s0 \<in> {s \<in> set ss. \<not> snd s}" by blast
    with nb_set have "s0 \<in> set ?nb" by blast
    then have ne: "?nb \<noteq> []" by (metis empty_iff empty_set)
    then have "?c' \<noteq> []" by simp
    from most_common_1_nonempty[OF this] obtain k n where
      mc: "most_common_1 ?c' = [(k, n)]" and mem: "(k, n) \<in> set ?c'"
      and mx: "\<forall>(k', n')\<in>set ?c'. n' \<le> n" by blast
    from mem have k: "k \<in> set ?nb" and n: "n = count_list ss k"
      by (auto simp: tally_get_empty)
    have res: "deduce_body_style ?sc = Inr k"
      using ne mc by (simp add: deduce_body_style_def index0_def Let_def)
    have "\<forall>s\<in>set ss. \<not> snd s \<longrightarrow> count_list ss s \<le> count_list ss k"
    proof (intro ballI impI)
      fix s assume "s \<in> set ss" "\<not> snd s"
      with nb_set have "s \<in> set ?nb" by blast
      then have "(s, counter_get ?sc s) \<in> (\<lambda>s. (s, counter_get ?sc s)) ` set ?nb"
        by (rule imageI)
      then have "(s, count_list ss s) \<in> set ?c'" by (simp only: set_map tally_get_empty)
      from bspec[OF mx this] n show "count_list ss s \<le> count_list ss k" by simp
    qed
    with True res k nb_set show ?thesis by auto
  next
    case False
    then have "{s \<in> set ss. \<not> snd s} = {}" by blast
    with nb_set have "set ?nb = {}" by simp
    then have nbe: "?nb = []" by (simp only: set_empty)
    show ?thesis
    proof (cases "ss = []")
      case True
      then show ?thesis by (simp add: tally_def deduce_body_style_def)
    next
      case ne: False
      have "fst ` set ?sc = set ss" by (simp add: tally_keys)
      with ne have "?sc \<noteq> []" by auto
      from most_common_1_nonempty[OF this] obtain k n where
        mc: "most_common_1 ?sc = [(k, n)]" and mem: "(k, n) \<in> set ?sc"
        and mx: "\<forall>(k', n')\<in>set ?sc. n' \<le> n" by blast
      from mem have k: "k \<in> set ss" and n: "n = count_list ss k"
        by (simp_all add: tally_entry)
      have res: "deduce_body_style ?sc = Inr k"
        using nbe mc \<open>?sc \<noteq> []\<close> by (simp add: deduce_body_style_def index0_def Let_def)
      have "\<forall>s\<in>set ss. count_list ss s \<le> count_list ss k"
      proof
        fix s assume "s \<in> set ss"
        then have "(s, count_list ss s) \<in> set ?sc" by (simp add: tally_entry)
        from bspec[OF mx this] n show "count_list ss s \<le> count_list ss k" by simp
      qed
      with False ne res k show ?thesis by auto
    qed
  qed
qed

text \<open>
  C1, as amended. The body style is deduced from the style frequencies of all retained
  lines, the lines later consumed as the title included, one occurrence per line: it is
  a non-bold style of greatest frequency among the non-bold ones when a non-bold style
  occurs, otherwise a style of greatest frequency, and \<open>(10, False)\<close> when the counter
  is empty. The deduction never raises.
\<close>

theorem body_style_from_all_retained_lines:
  assumes "extract_lines doc = Inr (all_lines, style_counts)"
  shows "\<exists>body_style. deduce_body_style style_counts = Inr body_style \<and>
     (if \<exists>l\<in>set all_lines. \<not> snd (style l)
      then \<not> snd body_style \<and> body_style \<in> style ` set all_lines
           \<and> (\<forall>l\<in>set all_lines. \<not> snd (style l) \<longrightarrow>
                 style_frequency all_lines (style l) \<le> style_frequency all_lines body_style)
      else if all_lines \<noteq> []
      then body_style \<in> style ` set all_lines
           \<and> (\<forall>l\<in>set all_lines.
                 style_frequency all_lines (style l) \<le> style_frequency all_lines body_style)
      else body_style = (10, False))"
proof -
  from extract_lines_inv[OF assms] have sc: "style_counts = tally (map style all_lines) []"
    by (simp add: corpus_inv_def)
  have freq: "\<And>s. style_frequency all_lines s = count_list (map style all_lines) s"
    by (simp add: style_frequency_def count_list_map)
  from deduce_body_style_tally[of "map style all_lines"] obtain b where
    res: "deduce_body_style (tally (map style all_lines) []) = Inr b"
    and b: "if \<exists>s\<in>set (map style all_lines). \<not> snd s
      then \<not> snd b \<and> b \<in> set (map style all_lines)
           \<and> (\<forall>s\<in>set (map style all_lines). \<not> snd s \<longrightarrow>
                 count_list (map style all_lines) s \<le> count_list (map style all_lines) b)
      else if map style all_lines \<noteq> []
      then b \<in> set (map style all_lines)
           \<and> (\<forall>s\<in>set (map style all_lines).
                 count_list (map style all_lines) s \<le> count_list (map style all_lines) b)
      else b = (10, False)" by blast
  have ex: "(\<exists>s\<in>set (map style all_lines). \<not> snd s) = (\<exists>l\<in>set all_lines. \<not> snd (style l))"
    by auto
  show ?thesis
  proof (intro exI conjI)
    show "deduce_body_style style_counts = Inr b" using res sc by simp
    show "if \<exists>l\<in>set all_lines. \<not> snd (style l)
      then \<not> snd b \<and> b \<in> style ` set all_lines
           \<and> (\<forall>l\<in>set all_lines. \<not> snd (style l) \<longrightarrow>
                 style_frequency all_lines (style l) \<le> style_frequency all_lines b)
      else if all_lines \<noteq> []
      then b \<in> style ` set all_lines
           \<and> (\<forall>l\<in>set all_lines.
                 style_frequency all_lines (style l) \<le> style_frequency all_lines b)
      else b = (10, False)"
    proof (cases "\<exists>l\<in>set all_lines. \<not> snd (style l)")
      case True
      with b ex show ?thesis unfolding freq by auto
    next
      case False
      with b ex show ?thesis unfolding freq by (cases "all_lines = []") auto
    qed
  qed
qed

lemma title_page_extract:
  "extract_lines title_page = Inr (title_page_lines, [((20, False), 2), ((12, False), 1)])"
  by code_simp

theorem body_style_from_all_retained_lines_witness:
  "extract_lines title_page = Inr (title_page_lines, [((20, False), 2), ((12, False), 1)])
   \<and> deduce_body_style [((20, False), 2), ((12, False), 1)] = Inr (20, False)
   \<and> style_frequency title_page_lines (12, False) \<le> style_frequency title_page_lines (20, False)"
proof -
  have d: "deduce_body_style [((20 :: int, False), 2 :: nat), ((12, False), 1)] = Inr (20, False)"
    by code_simp
  have m: "\<exists>l\<in>set title_page_lines. \<not> snd (style l)"
    by (simp add: title_page_lines_def)
  have l: "title_page_lines ! 2 \<in> set title_page_lines" "style (title_page_lines ! 2) = (12, False)"
    by (simp_all add: title_page_lines_def)
  from body_style_from_all_retained_lines[OF title_page_extract] d m
  have "\<forall>l\<in>set title_page_lines. \<not> snd (style l) \<longrightarrow>
          style_frequency title_page_lines (style l) \<le> style_frequency title_page_lines (20, False)"
    by auto
  with l have "style_frequency title_page_lines (12, False)
                 \<le> style_frequency title_page_lines (20, False)"
    by force
  with title_page_extract d show ?thesis by simp
qed

text \<open>
  The claim C1 as stated fails on \<open>title_page\<close>: the only retained non-title line has
  style \<open>(12, False)\<close>, so frequencies over the non-title lines give \<open>(12, False)\<close>,
  while \<^verbatim>\<open>process_pdf\<close> deduces \<open>(20, False)\<close>, the style of the two title lines.
\<close>

theorem body_style_counts_title_lines:
  "body_style_of title_page = Inr (20, False)
   \<and> map style (non_title_lines title_page) = [(12, False)]
   \<and> spec_body_style title_page = Inr (12, False)"
  by code_simp

subsection \<open>The ignore set\<close>
















subsection \<open>The merge loops produce one entry per run\<close>

lemma join_space_Cons:
  "join_space (x # xs) = x @ concat (map (\<lambda>y. '' '' @ y) xs)"
  by (induction xs arbitrary: x) auto

lemma mergeable_update [simp]:
  "mergeable (c\<lparr>line_text := t, y1 := y\<rparr>) p n = mergeable c p n"
  by (simp add: mergeable_def)

lemma absorb_update [simp]:
  "absorb (c\<lparr>line_text := t, y1 := y\<rparr>) p ns = absorb c p ns"
  by (induction ns arbitrary: p) auto

lemma absorb_split: "absorb c p ns = (a, r) \<Longrightarrow> ns = a @ r"
  by (induction ns arbitrary: p a r) (auto split: if_splits prod.splits)

lemma runs_from_absorb:
  "runs_from c p acc ns = (acc @ fst (absorb c p ns)) # runs (snd (absorb c p ns))"
proof (induction ns arbitrary: p acc)
  case Nil
  show ?case by (simp add: runs_def)
next
  case (Cons n ns)
  show ?case
  proof (cases "mergeable c p n")
    case True
    then show ?thesis using Cons[of n "acc @ [n]"] by (simp split: prod.splits)
  next
    case False
    then show ?thesis by (simp add: runs_def)
  qed
qed

lemma runs_Cons: "runs (c # cs) = (c # fst (absorb c c cs)) # runs (snd (absorb c c cs))"
  by (simp add: runs_def runs_from_absorb)

lemma merge_inner_unfold:
  "merge_inner sh i j =
     (if j < length sh then
        if mergeable (sh ! i) (sh ! (j - 1)) (sh ! j)
        then merge_inner
               (sh[i := (sh ! i)\<lparr>line_text := line_text (sh ! i) @ '' '' @ line_text (sh ! j),
                                 y1 := y1 (sh ! j)\<rparr>]) i (j + 1)
        else (sh, j)
      else (sh, j))"
  by (subst merge_inner.simps) (simp add: Let_def mergeable_def)

lemma merge_inner_spec:
  assumes "merge_inner sh i j = (sh', j')" and "i < j" and "j \<le> length sh"
    and "absorb (sh ! i) (sh ! (j - 1)) (drop j sh) = (a, r)"
  shows "j' = j + length a \<and> length sh' = length sh \<and> drop j' sh' = r
         \<and> line_text (sh' ! i) = line_text (sh ! i) @ concat (map (\<lambda>n. '' '' @ line_text n) a)
         \<and> page (sh' ! i) = page (sh ! i) \<and> level (sh' ! i) = level (sh ! i)"
  using assms
proof (induction sh i j arbitrary: sh' j' a r rule: merge_inner.induct)
  case (1 sh i j)
  show ?case
  proof (cases "j < length sh")
    case False
    with "1.prems" have j: "j = length sh" by simp
    then have "merge_inner sh i j = (sh, j)" by (subst merge_inner_unfold) simp
    with "1.prems" j show ?thesis by simp
  next
    case lt: True
    let ?cur = "sh ! i" and ?n = "sh ! j"
    have dr: "drop j sh = ?n # drop (Suc j) sh" using lt by (simp add: Cons_nth_drop_Suc)
    show ?thesis
    proof (cases "mergeable ?cur (sh ! (j - 1)) ?n")
      case False
      then have "merge_inner sh i j = (sh, j)"
        using lt by (subst merge_inner_unfold) (simp only: if_True if_False)
      moreover from False "1.prems"(4) dr have "a = []" "r = drop j sh" by auto
      ultimately show ?thesis using "1.prems"(1) by simp
    next
      case True
      let ?cur' = "?cur\<lparr>line_text := line_text ?cur @ '' '' @ line_text ?n, y1 := y1 ?n\<rparr>"
      let ?sh2 = "sh[i := ?cur']"
      have step: "merge_inner sh i j = merge_inner ?sh2 i (j + 1)"
        using lt True by (subst merge_inner_unfold) (simp only: if_True)
      have i_lt: "i < length sh" using "1.prems"(2) lt by simp
      obtain a2 r2 where ab2: "absorb ?cur ?n (drop (Suc j) sh) = (a2, r2)"
        by (cases "absorb ?cur ?n (drop (Suc j) sh)") auto
      with True "1.prems"(4) dr have ar: "a = ?n # a2" "r = r2" by auto
      have sh2i: "?sh2 ! i = ?cur'" using i_lt by simp
      have sh2j: "?sh2 ! (j + 1 - 1) = ?n" using "1.prems"(2) by simp
      have dr2: "drop (j + 1) ?sh2 = drop (Suc j) sh" using "1.prems"(2) by simp
      have ab2': "absorb (?sh2 ! i) (?sh2 ! (j + 1 - 1)) (drop (j + 1) ?sh2) = (a2, r2)"
        unfolding sh2i sh2j dr2 using ab2 by simp
      have cond: "page ?n = page ?cur \<and> column ?n = column ?cur \<and> style ?n = style ?cur
            \<and> \<bar>y0 ?n - y1 (sh ! (j - 1))\<bar> < of_int (line_size ?cur) * (1 / 2)"
        using True by (simp add: mergeable_def)
      have run: "merge_inner ?sh2 i (j + 1) = (sh', j')" using step "1.prems"(1) by simp
      have "j' = j + 1 + length a2 \<and> length sh' = length ?sh2 \<and> drop j' sh' = r2
         \<and> line_text (sh' ! i) = line_text (?sh2 ! i) @ concat (map (\<lambda>n. '' '' @ line_text n) a2)
         \<and> page (sh' ! i) = page (?sh2 ! i) \<and> level (sh' ! i) = level (?sh2 ! i)"
      proof (rule "1.IH"[OF lt refl refl _ run _ _ ab2'])
        show "page ?n = page ?cur \<and> column ?n = column ?cur \<and> style ?n = style ?cur
            \<and> \<bar>y0 ?n - y1 (sh ! (j - 1))\<bar> < of_int (line_size ?cur) * (1 / 2)"
          by (rule cond)
        show "i < j + 1" using "1.prems"(2) by simp
        show "j + 1 \<le> length ?sh2" using lt by simp
      qed
      then show ?thesis unfolding sh2i ar by auto
    qed
  qed
qed

lemma merge_outer_runs:
  "i \<le> length sh \<Longrightarrow> merge_outer sh i out = out @ map run_entry (runs (drop i sh))"
proof (induction sh i out rule: merge_outer.induct)
  case (1 sh i out)
  show ?case
  proof (cases "i < length sh")
    case False
    with "1.prems" have "i = length sh" by simp
    then show ?thesis by (subst merge_outer.simps) (simp add: runs_def)
  next
    case lt: True
    obtain sh' j where mi: "merge_inner sh i (i + 1) = (sh', j)"
      by (cases "merge_inner sh i (i + 1)") auto
    obtain a r where ab: "absorb (sh ! i) (sh ! i) (drop (Suc i) sh) = (a, r)"
      by (cases "absorb (sh ! i) (sh ! i) (drop (Suc i) sh)") auto
    have ab': "absorb (sh ! i) (sh ! (i + 1 - 1)) (drop (i + 1) sh) = (a, r)"
      using ab by simp
    have "j = i + 1 + length a \<and> length sh' = length sh \<and> drop j sh' = r
         \<and> line_text (sh' ! i) = line_text (sh ! i) @ concat (map (\<lambda>n. '' '' @ line_text n) a)
         \<and> page (sh' ! i) = page (sh ! i) \<and> level (sh' ! i) = level (sh ! i)"
      by (rule merge_inner_spec[OF mi _ _ ab']) (use lt in simp_all)
    then have sp: "j = i + 1 + length a" "length sh' = length sh" "drop j sh' = r"
      "line_text (sh' ! i) = line_text (sh ! i) @ concat (map (\<lambda>n. '' '' @ line_text n) a)"
      "page (sh' ! i) = page (sh ! i)" "level (sh' ! i) = level (sh ! i)"
      by blast+
    let ?e = "\<lparr>entry_level = level (sh' ! i), entry_text = strip (line_text (sh' ! i)),
               entry_page = page (sh' ! i)\<rparr>"
    from absorb_split[OF ab] have "length a \<le> length (drop (Suc i) sh)" by simp
    with sp lt have jle: "j \<le> length sh'" by simp
    have step: "merge_outer sh i out = merge_outer sh' j (out @ [?e])"
      using lt mi by (subst merge_outer.simps) (simp add: Let_def)
    have ih: "merge_outer sh' j (out @ [?e]) = (out @ [?e]) @ map run_entry (runs (drop j sh'))"
      by (rule "1.IH"[OF lt mi[symmetric] refl jle])
    have e: "?e = run_entry (sh ! i # a)"
      by (simp add: run_entry_def sp join_space_Cons comp_def)
    have "runs (drop i sh) = (sh ! i # a) # runs r"
      using lt ab by (simp add: Cons_nth_drop_Suc[symmetric] runs_Cons)
    with step ih e sp show ?thesis by simp
  qed
qed

lemma build_outline_runs:
  "build_outline set_iter p0 cands = map run_entry (runs (sorted_headings set_iter p0 cands))"
  by (simp add: build_outline_def merge_outer_runs)

lemma concat_runs_from: "concat (runs_from c p acc ns) = acc @ ns"
  by (induction ns arbitrary: c p acc) auto

lemma concat_runs: "concat (runs sh) = sh"
  by (cases sh) (simp_all add: runs_def concat_runs_from)

lemma runs_from_nonempty: "acc \<noteq> [] \<Longrightarrow> [] \<notin> set (runs_from c p acc ns)"
proof (induction ns arbitrary: c p acc)
  case Nil
  then show ?case by simp
next
  case (Cons n ns)
  then show ?case using Cons.IH[of "acc @ [n]" c n] Cons.IH[of "[n]" n n] by auto
qed

lemma runs_nonempty: "r \<in> set (runs sh) \<Longrightarrow> r \<noteq> []"
proof (cases sh)
  case Nil
  assume "r \<in> set (runs sh)"
  with Nil show ?thesis by (simp add: runs_def)
next
  case (Cons c cs)
  assume "r \<in> set (runs sh)"
  with Cons have "r \<in> set (runs_from c c [c] cs)" by (simp add: runs_def)
  with runs_from_nonempty[of "[c]" c c cs] show ?thesis by auto
qed

lemma runs_subset: "r \<in> set (runs sh) \<Longrightarrow> set r \<subseteq> set sh"
proof -
  assume "r \<in> set (runs sh)"
  then have "set r \<subseteq> set (concat (runs sh))" by auto
  then show ?thesis by (simp add: concat_runs)
qed

subsection \<open>Where the sorted headings come from\<close>

lemma retained_lines_wf:
  assumes "l \<in> set (retained_lines doc)"
  shows "wf_line l" and "line_text l \<notin> detect_headers_and_footers doc"
proof -
  obtain st where st: "extract_lines doc = Inr st" using extract_lines_Inr by blast
  obtain ls sc where lsc: "st = (ls, sc)" by (cases st) auto
  from st lsc have r: "retained_lines doc = ls" by (simp add: retained_lines_def)
  from extract_lines_inv[OF st] lsc assms r
  show "wf_line l" and "line_text l \<notin> detect_headers_and_footers doc"
    by (auto simp: corpus_inv_def list_all_iff)
qed

lemma exclude_title_lines_subset: "set (exclude_title_lines ids ls) \<subseteq> set ls"
  by (auto simp: exclude_title_lines_def)

lemma non_title_lines_subset: "set (non_title_lines doc) \<subseteq> set (retained_lines doc)"
  by (simp add: non_title_lines_def Let_def exclude_title_lines_subset)

lemma initial_candidates_subset: "set (initial_candidates p0 body ls) \<subseteq> set ls"
  by (auto simp: initial_candidates_def)

lemma sorted_headings_origin:
  assumes "x \<in> set (sorted_headings set_iter p0 cands)"
  shows "\<exists>c\<in>set cands.
           x = c\<lparr>level := style_to_level (heading_styles set_iter cands) (style c)\<rparr>
           \<and> level x \<noteq> None \<and> (\<not> p0 \<longrightarrow> page x \<noteq> 0)"
  using assms by (auto simp: sorted_headings_def refined_headings_def Let_def split: if_splits)



subsection \<open>Adjacent fragments\<close>






lemma heading_doc_sorted:
  "sorted_headings remdups False (initial_candidates False (10, False) (non_title_lines heading_doc))
     = heading_sorted"
  by code_simp



subsection \<open>Heading levels\<close>

lemma style_key_less:
  "((- fst A, - (of_bool (snd A) :: int)) < (- fst B, - (of_bool (snd B) :: int)))
     = ranks_above A B"
  by (cases "snd A"; cases "snd B") (auto simp: ranks_above_def)

lemma style_key_inj:
  fixes A B :: style
  shows "(- fst A, - (of_bool (snd A) :: int)) = (- fst B, - (of_bool (snd B) :: int)) \<Longrightarrow> A = B"
  by (cases A; cases B; cases "snd A"; cases "snd B") auto

lemma ranks_above_irrefl: "\<not> ranks_above A A"
  by (simp add: ranks_above_def)

lemma ranks_above_asym: "ranks_above A B \<Longrightarrow> \<not> ranks_above B A"
  by (auto simp: ranks_above_def)

lemma heading_styles_props:
  assumes "set_iteration set_iter"
  shows "distinct (heading_styles set_iter cands)"
    and "set (heading_styles set_iter cands) = style ` set cands"
    and "i < j \<Longrightarrow> j < length (heading_styles set_iter cands) \<Longrightarrow>
           ranks_above (heading_styles set_iter cands ! i) (heading_styles set_iter cands ! j)"
proof -
  let ?k = "\<lambda>s :: style. (- fst s, - (of_bool (snd s) :: int))"
  let ?hs = "heading_styles set_iter cands"
  from assms have d: "distinct (set_iter (map style cands))"
    and s: "set (set_iter (map style cands)) = set (map style cands)"
    by (simp_all add: set_iteration_def)
  show dist: "distinct ?hs" using d by (simp add: heading_styles_def)
  show "set ?hs = style ` set cands" using s by (simp add: heading_styles_def)
  assume ij: "i < j" "j < length ?hs"
  have "sorted (map ?k ?hs)" by (simp add: heading_styles_def)
  then have "map ?k ?hs ! i \<le> map ?k ?hs ! j"
    using ij by (intro sorted_nth_mono) simp_all
  then have le: "?k (?hs ! i) \<le> ?k (?hs ! j)" using ij by simp
  have "?hs ! i \<noteq> ?hs ! j" using dist ij by (simp add: nth_eq_iff_index_eq)
  then have "?k (?hs ! i) \<noteq> ?k (?hs ! j)" using style_key_inj by blast
  with le have "?k (?hs ! i) < ?k (?hs ! j)" by (rule order.not_eq_order_implies_strict[rotated])
  then show "ranks_above (?hs ! i) (?hs ! j)" by (simp only: style_key_less)
qed

lemma fold_enumerate_other:
  "s \<notin> set xs \<Longrightarrow> fold (\<lambda>(i, s) m. m(s \<mapsto> f i)) (enumerate n xs) m0 s = m0 s"
  by (induction xs arbitrary: n m0) auto

lemma fold_enumerate_nth:
  "distinct xs \<Longrightarrow> k < length xs \<Longrightarrow>
     fold (\<lambda>(i, s) m. m(s \<mapsto> f i)) (enumerate n xs) m0 (xs ! k) = Some (f (n + k))"
proof (induction xs arbitrary: n m0 k)
  case Nil
  then show ?case by simp
next
  case (Cons x xs)
  show ?case
  proof (cases k)
    case 0
    from Cons.prems have "x \<notin> set xs" by simp
    from fold_enumerate_other[OF this, of f "Suc n" "m0(x \<mapsto> f n)"] 0
    show ?thesis by (simp del: fun_upd_apply) simp
  next
    case (Suc k')
    with Cons.prems Cons.IH[of k' "Suc n" "m0(x \<mapsto> f n)"] show ?thesis by simp
  qed
qed

lemma style_to_level_nth:
  assumes "distinct hs" and "k < min 3 (length hs)"
  shows "style_to_level hs (hs ! k) = Some (level_name (k + 1))"
proof -
  have "distinct (take 3 hs)" using assms(1) by simp
  moreover have "k < length (take 3 hs)" using assms(2) by simp
  ultimately have "fold (\<lambda>(i, s) m. m(s \<mapsto> level_name (i + 1))) (enumerate 0 (take 3 hs))
      Map.empty (take 3 hs ! k) = Some (level_name (0 + k + 1))"
    by (rule fold_enumerate_nth[where f = "\<lambda>i. level_name (i + 1)"])
  then show ?thesis using assms(2) by (simp add: style_to_level_def)
qed

lemma style_to_level_None:
  "s \<notin> set (take 3 hs) \<Longrightarrow> style_to_level hs s = None"
  unfolding style_to_level_def
  using fold_enumerate_other[of s "take 3 hs" "\<lambda>i. level_name (i + 1)" 0 Map.empty]
  by simp

lemma sorted_headings_rank:
  assumes si: "set_iteration set_iter"
    and x: "x \<in> set (sorted_headings set_iter p0 cands)"
  shows "\<exists>k < min 3 (length (heading_styles set_iter cands)).
           style x = heading_styles set_iter cands ! k \<and> level x = Some (level_name (k + 1))"
proof -
  let ?hs = "heading_styles set_iter cands"
  from sorted_headings_origin[OF x] have lv: "level x = style_to_level ?hs (style x)"
    and nn: "level x \<noteq> None" by auto
  have "style x \<in> set (take 3 ?hs)"
  proof (rule ccontr)
    assume "style x \<notin> set (take 3 ?hs)"
    from style_to_level_None[OF this] lv nn show False by simp
  qed
  then obtain k where k: "k < length (take 3 ?hs)" "take 3 ?hs ! k = style x"
    by (auto simp: in_set_conv_nth)
  then have k3: "k < min 3 (length ?hs)" and sx: "style x = ?hs ! k" by simp_all
  from style_to_level_nth[OF heading_styles_props(1)[OF si] k3] lv sx
  have "level x = Some (level_name (k + 1))" by simp
  with k3 sx show ?thesis by blast
qed

text \<open>
  C3. Whatever order the set of candidate styles is iterated in: the heading styles are
  the distinct candidate styles in descending (size, boldness) order; the first three are
  mapped to H1, H2, H3; every surviving heading has one of these three styles, so the
  candidates of a lower-ranked style are dropped; and of two outline entries, the one whose
  style ranks above the other's has the numerically smaller level.
\<close>

theorem heading_levels_follow_rank:
  assumes "set_iteration set_iter"
    and "hs = heading_styles set_iter cands"
    and "sh = sorted_headings set_iter p0 cands"
  shows "distinct hs \<and> set hs = style ` set cands
    \<and> (\<forall>i j. i < j \<and> j < length hs \<longrightarrow> ranks_above (hs ! i) (hs ! j))
    \<and> (\<forall>k. k < min 3 (length hs) \<longrightarrow> style_to_level hs (hs ! k) = Some (level_name (k + 1)))
    \<and> (\<forall>x\<in>set sh. style x \<in> set (take 3 hs))
    \<and> build_outline set_iter p0 cands = map run_entry (runs sh)
    \<and> (\<forall>r1\<in>set (runs sh). \<forall>r2\<in>set (runs sh).
          ranks_above (style (hd r1)) (style (hd r2)) \<longrightarrow>
          (\<exists>m n. entry_level (run_entry r1) = Some (level_name m)
                 \<and> entry_level (run_entry r2) = Some (level_name n)
                 \<and> 1 \<le> m \<and> m < n \<and> n \<le> 3))"
proof (intro conjI allI impI ballI)
  show "distinct hs" unfolding assms(2) by (rule heading_styles_props(1)[OF assms(1)])
  show "set hs = style ` set cands" unfolding assms(2) by (rule heading_styles_props(2)[OF assms(1)])
  show "build_outline set_iter p0 cands = map run_entry (runs sh)"
    unfolding assms(3) by (rule build_outline_runs)
next
  fix i j assume "i < j \<and> j < length hs"
  then show "ranks_above (hs ! i) (hs ! j)"
    unfolding assms(2) using heading_styles_props(3)[OF assms(1)] by blast
next
  fix k assume "k < min 3 (length hs)"
  then show "style_to_level hs (hs ! k) = Some (level_name (k + 1))"
    unfolding assms(2) using style_to_level_nth[OF heading_styles_props(1)[OF assms(1)]] by blast
next
  fix x assume "x \<in> set sh"
  then have "x \<in> set (sorted_headings set_iter p0 cands)" by (simp only: assms(3))
  from sorted_headings_rank[OF assms(1) this] obtain k where
    "k < min 3 (length hs)" "style x = hs ! k" unfolding assms(2) by blast
  then show "style x \<in> set (take 3 hs)"
    by (metis length_take min.commute nth_mem nth_take min_less_iff_conj)
next
  fix r1 r2
  assume r1: "r1 \<in> set (runs sh)" and r2: "r2 \<in> set (runs sh)"
    and ra: "ranks_above (style (hd r1)) (style (hd r2))"
  have h1: "hd r1 \<in> set (sorted_headings set_iter p0 cands)"
    using runs_subset[OF r1] runs_nonempty[OF r1] unfolding assms(3) by (cases r1) auto
  have h2: "hd r2 \<in> set (sorted_headings set_iter p0 cands)"
    using runs_subset[OF r2] runs_nonempty[OF r2] unfolding assms(3) by (cases r2) auto
  from sorted_headings_rank[OF assms(1) h1] obtain i where
    i: "i < min 3 (length hs)" "style (hd r1) = hs ! i" "level (hd r1) = Some (level_name (i + 1))"
    unfolding assms(2) by blast
  from sorted_headings_rank[OF assms(1) h2] obtain j where
    j: "j < min 3 (length hs)" "style (hd r2) = hs ! j" "level (hd r2) = Some (level_name (j + 1))"
    unfolding assms(2) by blast
  have "i < j"
  proof (rule ccontr)
    assume "\<not> i < j"
    then consider "i = j" | "j < i" by linarith
    then show False
    proof cases
      case 1
      with ra i j show False by (simp add: ranks_above_irrefl)
    next
      case 2
      with i have "ranks_above (hs ! j) (hs ! i)"
        unfolding assms(2) using heading_styles_props(3)[OF assms(1), of j i cands] by simp
      with ra i j show False using ranks_above_asym by auto
    qed
  qed
  with i j show "\<exists>m n. entry_level (run_entry r1) = Some (level_name m)
                 \<and> entry_level (run_entry r2) = Some (level_name n)
                 \<and> 1 \<le> m \<and> m < n \<and> n \<le> 3"
    by (intro exI[of _ "i + 1"] exI[of _ "j + 1"]) (simp add: run_entry_def)
qed

lemma set_iteration_remdups: "set_iteration remdups"
  by (simp add: set_iteration_def)

lemma heading_doc_styles:
  "heading_styles remdups heading_cands = [(18, True), (14, True), (12, True), (11, True)]"
  by code_simp

lemma heading_sorted_runs:
  "runs heading_sorted =
     [[heading_sorted ! 0], [heading_sorted ! 1, heading_sorted ! 2], [heading_sorted ! 3]]"
  by (simp add: heading_sorted_def runs_def mergeable_def)

theorem heading_levels_follow_rank_witness:
  "set_iteration remdups
   \<and> heading_styles remdups heading_cands = [(18, True), (14, True), (12, True), (11, True)]
   \<and> heading_sorted = sorted_headings remdups False heading_cands
   \<and> runs heading_sorted =
       [[heading_sorted ! 0], [heading_sorted ! 1, heading_sorted ! 2], [heading_sorted ! 3]]
   \<and> ranks_above (style (hd [heading_sorted ! 0]))
        (style (hd [heading_sorted ! 1, heading_sorted ! 2]))
   \<and> style_to_level [(18, True), (14, True), (12, True), (11, True)] (14, True)
       = Some (level_name 2)
   \<and> map style heading_sorted = [(18, True), (14, True), (14, True), (12, True)]
   \<and> (\<exists>m n. entry_level (run_entry [heading_sorted ! 0]) = Some (level_name m)
            \<and> entry_level (run_entry [heading_sorted ! 1, heading_sorted ! 2])
                = Some (level_name n)
            \<and> 1 \<le> m \<and> m < n \<and> n \<le> 3)"
proof -
  have s: "heading_sorted = sorted_headings remdups False heading_cands"
    by (simp only: heading_doc_sorted heading_cands_def)
  have ra: "ranks_above (style (hd [heading_sorted ! 0]))
        (style (hd [heading_sorted ! 1, heading_sorted ! 2]))"
    by (simp add: heading_sorted_def ranks_above_def)
  have ms: "map style heading_sorted = [(18, True), (14, True), (14, True), (12, True)]"
    by (simp add: heading_sorted_def)
  note inst = heading_levels_follow_rank[OF set_iteration_remdups refl s]
  from inst have lv: "\<forall>k. k < min 3 (length (heading_styles remdups heading_cands)) \<longrightarrow>
      style_to_level (heading_styles remdups heading_cands)
        (heading_styles remdups heading_cands ! k) = Some (level_name (k + 1))"
    by blast
  from lv[rule_format, of 1] have l2:
    "style_to_level [(18, True), (14, True), (12, True), (11, True)] (14, True)
       = Some (level_name 2)"
    unfolding heading_doc_styles by (simp add: numeral_2_eq_2)
  from inst have "\<forall>r1\<in>set (runs heading_sorted). \<forall>r2\<in>set (runs heading_sorted).
          ranks_above (style (hd r1)) (style (hd r2)) \<longrightarrow>
          (\<exists>m n. entry_level (run_entry r1) = Some (level_name m)
                 \<and> entry_level (run_entry r2) = Some (level_name n)
                 \<and> 1 \<le> m \<and> m < n \<and> n \<le> 3)"
    by blast
  then have "\<exists>m n. entry_level (run_entry [heading_sorted ! 0]) = Some (level_name m)
            \<and> entry_level (run_entry [heading_sorted ! 1, heading_sorted ! 2])
                = Some (level_name n)
            \<and> 1 \<le> m \<and> m < n \<and> n \<le> 3"
    using ra unfolding heading_sorted_runs by simp
  with set_iteration_remdups heading_doc_styles s heading_sorted_runs ra l2 ms
  show ?thesis by blast
qed

subsection \<open>The shape of the result\<close>

lemma deduce_body_style_Inr:
  assumes "extract_lines doc = Inr (all_lines, style_counts)"
  shows "\<exists>b. deduce_body_style style_counts = Inr b"
  using body_style_from_all_retained_lines[OF assms] by blast

lemma process_pdf_body_shape:
  assumes "process_pdf_body set_iter doc = Inr out"
  shows "title out = join_space (map line_text (title_lines_of doc (retained_lines doc)))
    \<and> (outline out = []
        \<or> (\<exists>p0 body. outline out
              = build_outline set_iter p0 (initial_candidates p0 body (non_title_lines doc))))"
proof -
  obtain st where st: "extract_lines doc = Inr st" using extract_lines_Inr by blast
  obtain ls sc where lsc: "st = (ls, sc)" by (cases st) auto
  from st lsc have r: "retained_lines doc = ls" by (simp add: retained_lines_def)
  have nt: "non_title_lines doc = exclude_title_lines (set (map line_id (title_lines_of doc ls))) ls"
    by (simp add: non_title_lines_def r Let_def)
  from assms st lsc have an: "analyse_lines set_iter doc (ls, sc) = Inr out"
    by (simp add: process_pdf_body_def)
  show ?thesis
  proof (cases "ls = []")
    case True
    with an have "out = \<lparr>title = [], outline = []\<rparr>" by (simp add: analyse_lines_def)
    moreover have "title_lines_of doc [] = []"
      by (simp add: title_lines_of_def page_0_lines_top_half_def Let_def)
    ultimately show ?thesis using r True by simp
  next
    case False
    obtain b where b: "deduce_body_style sc = Inr b"
      using deduce_body_style_Inr st lsc by blast
    obtain g where g: "page_0_has_paragraphs b (non_title_lines doc) = Inr g"
      using page_0_has_paragraphs_Inr by blast
    from an False b g nt
    have "out = \<lparr>title = join_space (map line_text (title_lines_of doc ls)),
                  outline = (if initial_candidates g b (non_title_lines doc) = [] then []
                             else build_outline set_iter g
                                    (initial_candidates g b (non_title_lines doc)))\<rparr>"
      by (simp add: analyse_lines_def Let_def split: if_splits)
    then have t: "title out = join_space (map line_text (title_lines_of doc (retained_lines doc)))"
      and o: "outline out = (if initial_candidates g b (non_title_lines doc) = [] then []
                             else build_outline set_iter g
                                    (initial_candidates g b (non_title_lines doc)))"
      using r by simp_all
    show ?thesis
    proof (cases "initial_candidates g b (non_title_lines doc) = []")
      case True
      with t o show ?thesis by simp
    next
      case False
      with o have "outline out
          = build_outline set_iter g (initial_candidates g b (non_title_lines doc))" by simp
      then have "\<exists>p0 body. outline out
              = build_outline set_iter p0 (initial_candidates p0 body (non_title_lines doc))"
        by blast
      with t show ?thesis by blast
    qed
  qed
qed

subsection \<open>Title by size spread\<close>








lemma title_page_result:
  "process_pdf_body remdups title_page = Inr \<lparr>title = ''Big Title Second Line'', outline = []\<rparr>"
  by code_simp



subsection \<open>Title lines leave the corpus\<close>

lemma accumulate_title_subset:
  "set (accumulate_title f l acc xs) \<subseteq> set acc \<union> set xs"
proof (induction xs arbitrary: l acc)
  case Nil
  show ?case by simp
next
  case (Cons c cs)
  have "set (accumulate_title f (Some c) (acc @ [c]) cs) \<subseteq> set (acc @ [c]) \<union> set cs"
    by (rule Cons.IH)
  then show ?case by (cases l) (auto split: if_splits)
qed

lemma title_lines_try_subset:
  assumes "title_lines_try doc top_half = Inr ls"
  shows "set ls \<subseteq> set top_half"
proof -
  from assms consider
    (centered) p where "ls = take 2 (filter p top_half)"
    | (sized) f k where "ls = accumulate_title f None [] (drop k top_half)"
    by (auto simp: title_lines_try_def Let_def split: sum.splits if_splits)
  then show ?thesis
  proof cases
    case centered
    have "set (take 2 (filter p top_half)) \<subseteq> set (filter p top_half)" by (rule set_take_subset)
    with centered show ?thesis by auto
  next
    case sized
    have "set (drop k top_half) \<subseteq> set top_half" by (rule set_drop_subset)
    with accumulate_title_subset[of f None "[]" "drop k top_half"] sized show ?thesis by auto
  qed
qed

lemma title_lines_of_subset: "set (title_lines_of doc ls) \<subseteq> set ls"
proof -
  have top: "set (page_0_lines_top_half doc ls) \<subseteq> set ls"
    by (auto simp: page_0_lines_top_half_def Let_def)
  show ?thesis
  proof (cases "title_lines_try doc (page_0_lines_top_half doc ls)")
    case (Inl e)
    then show ?thesis by (simp add: title_lines_of_def Let_def)
  next
    case (Inr tl)
    from title_lines_try_subset[OF Inr] top have "set tl \<subseteq> set ls" by blast
    with Inr show ?thesis by (simp add: title_lines_of_def Let_def)
  qed
qed

lemma non_title_lines_ids:
  assumes "l \<in> set (non_title_lines doc)"
  shows "line_id l \<notin> line_id ` set (title_lines_of doc (retained_lines doc))"
  using assms
  by (auto simp: non_title_lines_def exclude_title_lines_def Let_def split: if_splits)

lemma non_title_lines_not_consumed:
  assumes "c \<in> set (title_lines_of doc (retained_lines doc))"
  shows "c \<notin> set (non_title_lines doc)"
  using non_title_lines_ids[of c doc] assms by blast

lemma wf_line_same_id:
  assumes "wf_line l" and "wf_line c" and "page l = page c" and "y0 l = y0 c" and "y0 c \<noteq> 0"
  shows "line_id l = line_id c"
proof -
  from assms have "fst (line_id l) = fst (line_id c)"
    and "fst (snd (line_id l)) = fst (snd (line_id c))"
    and "snd (snd (line_id l)) = snd (snd (line_id c))"
    by (auto simp: wf_line_def)
  then show ?thesis by (simp add: prod_eq_iff)
qed

text \<open>
  C10, as amended. Removal is by identity string: a retained line whose identity string
  is that of a line consumed for the title is removed from the lines that heading
  analysis sees, whatever its text and horizontal extent; and a retained line that shares
  its page and a non-zero \<open>y0\<close> with a consumed line has the same identity string, so it
  is removed. (At zero the strings of \<^verbatim>\<open>0.0\<close> and \<^verbatim>\<open>-0.0\<close> differ.)
\<close>

theorem title_removal_keyed_on_id:
  assumes "c \<in> set (title_lines_of doc (retained_lines doc))"
    and "l \<in> set (retained_lines doc)"
  shows "(line_id l = line_id c \<longrightarrow> l \<notin> set (non_title_lines doc))
    \<and> (page l = page c \<and> y0 l = y0 c \<and> y0 c \<noteq> 0
          \<longrightarrow> line_id l = line_id c \<and> l \<notin> set (non_title_lines doc))"
proof -
  have by_id: "l \<notin> set (non_title_lines doc)" if "line_id l = line_id c"
  proof -
    from that assms(1) have "line_id l \<in> line_id ` set (title_lines_of doc (retained_lines doc))"
      by (metis imageI)
    with non_title_lines_ids[of l doc] show ?thesis by blast
  qed
  from assms(1) title_lines_of_subset have "c \<in> set (retained_lines doc)" by blast
  from retained_lines_wf(1)[OF this] retained_lines_wf(1)[OF assms(2)]
  have "line_id l = line_id c" if "page l = page c" "y0 l = y0 c" "y0 c \<noteq> 0"
    using that by (intro wf_line_same_id)
  with by_id show ?thesis by blast
qed

lemma same_height_page_retained:
  "retained_lines same_height_page = [title_line, side_note_line, title_page_lines ! 2]"
  by code_simp

lemma same_height_page_title:
  "title_lines_of same_height_page [title_line, side_note_line, title_page_lines ! 2] = [title_line]"
  by code_simp

lemma same_height_page_rest:
  "non_title_lines same_height_page = [title_page_lines ! 2]"
  unfolding non_title_lines_def same_height_page_retained by code_simp

theorem title_removal_keyed_on_id_witness:
  "title_line \<in> set (title_lines_of same_height_page (retained_lines same_height_page))
   \<and> side_note_line \<in> set (retained_lines same_height_page)
   \<and> page side_note_line = page title_line \<and> y0 side_note_line = y0 title_line
   \<and> y0 title_line \<noteq> 0
   \<and> line_text side_note_line \<noteq> line_text title_line
   \<and> x0 side_note_line \<noteq> x0 title_line
   \<and> line_id side_note_line = line_id title_line
   \<and> side_note_line \<notin> set (non_title_lines same_height_page)
   \<and> map line_text (non_title_lines same_height_page) = [''body text here'']"
proof -
  have a: "title_line \<in> set (title_lines_of same_height_page (retained_lines same_height_page))"
    by (simp add: same_height_page_retained same_height_page_title)
  have b: "side_note_line \<in> set (retained_lines same_height_page)"
    by (simp add: same_height_page_retained)
  have c: "page side_note_line = page title_line" "y0 side_note_line = y0 title_line"
    "y0 title_line \<noteq> 0"
    "line_text side_note_line \<noteq> line_text title_line" "x0 side_note_line \<noteq> x0 title_line"
    by (simp_all add: side_note_line_def title_line_def)
  have d: "map line_text (non_title_lines same_height_page) = [''body text here'']"
    by (simp add: same_height_page_rest title_page_lines_def)
  from title_removal_keyed_on_id[OF a b] c(1,2,3)
  have "line_id side_note_line = line_id title_line
        \<and> side_note_line \<notin> set (non_title_lines same_height_page)"
    by blast
  with a b c d show ?thesis by blast
qed

lemma zero_height_page_retained:
  "retained_lines zero_height_page = [zero_title_line, minus_zero_note_line, title_page_lines ! 2]"
  by code_simp

lemma zero_height_page_title:
  "title_lines_of zero_height_page [zero_title_line, minus_zero_note_line, title_page_lines ! 2]
     = [zero_title_line]"
  by code_simp

lemma zero_height_page_rest:
  "non_title_lines zero_height_page = [minus_zero_note_line, title_page_lines ! 2]"
  unfolding non_title_lines_def zero_height_page_retained by code_simp

text \<open>
  The claim C10 as stated fails on \<open>zero_height_page\<close>: the note shares page and \<open>y0\<close>
  with the consumed title line, the numbers \<^verbatim>\<open>0.0\<close> and \<^verbatim>\<open>-0.0\<close> being equal, but its
  identity string differs and it stays among the lines of heading analysis.
\<close>

theorem minus_zero_line_survives:
  "zero_title_line \<in> set (title_lines_of zero_height_page (retained_lines zero_height_page))
   \<and> minus_zero_note_line \<in> set (retained_lines zero_height_page)
   \<and> page minus_zero_note_line = page zero_title_line
   \<and> y0 minus_zero_note_line = y0 zero_title_line
   \<and> line_id minus_zero_note_line \<noteq> line_id zero_title_line
   \<and> minus_zero_note_line \<in> set (non_title_lines zero_height_page)"
proof -
  have a: "zero_title_line
      \<in> set (title_lines_of zero_height_page (retained_lines zero_height_page))"
    by (simp only: zero_height_page_retained zero_height_page_title) simp
  have b: "minus_zero_note_line \<in> set (retained_lines zero_height_page)"
    by (simp only: zero_height_page_retained) simp
  have c: "page minus_zero_note_line = page zero_title_line"
    "y0 minus_zero_note_line = y0 zero_title_line"
    "line_id minus_zero_note_line \<noteq> line_id zero_title_line"
    by (simp_all add: zero_title_line_def minus_zero_note_line_def)
  have d: "minus_zero_note_line \<in> set (non_title_lines zero_height_page)"
    by (simp only: zero_height_page_rest) simp
  from a b c d show ?thesis by blast
qed

subsection \<open>No title line in the outline\<close>

lemma non_title_lines_filter:
  "non_title_lines doc
     = filter (\<lambda>l. line_id l \<notin> line_id ` set (title_lines_of doc (retained_lines doc)))
         (retained_lines doc)"
  by (simp add: non_title_lines_def exclude_title_lines_def Let_def)

lemma sorted_headings_from_non_title:
  assumes "f \<in> set (sorted_headings set_iter p0 (initial_candidates q body (non_title_lines doc)))"
  shows "f\<lparr>level := None\<rparr> \<in> set (non_title_lines doc)"
proof -
  from sorted_headings_origin[OF assms] obtain c lv where
    c: "c \<in> set (initial_candidates q body (non_title_lines doc))" and f: "f = c\<lparr>level := lv\<rparr>"
    by blast
  from c initial_candidates_subset have cn: "c \<in> set (non_title_lines doc)" by blast
  with non_title_lines_subset have "c \<in> set (retained_lines doc)" by blast
  from retained_lines_wf(1)[OF this] have "level c = None" by (simp add: wf_line_def)
  then have "c\<lparr>level := None\<rparr> = c" by (cases c) simp
  with f cn show ?thesis by simp
qed

text \<open>
  C6. The lines that heading analysis receives are the retained lines whose identity is
  not the identity of a line consumed for the title, so no consumed line is among them; and
  every outline entry is built from a non-empty run of such lines, each carrying its
  level, so no consumed line appears in the outline.
\<close>

theorem title_lines_not_in_outline:
  assumes "process_pdf_body set_iter doc = Inr out"
  shows "non_title_lines doc
           = filter (\<lambda>l. line_id l \<notin> line_id ` set (title_lines_of doc (retained_lines doc)))
               (retained_lines doc)
    \<and> (\<forall>c\<in>set (title_lines_of doc (retained_lines doc)). c \<notin> set (non_title_lines doc))
    \<and> (\<exists>rs. outline out = map run_entry rs
          \<and> (\<forall>r\<in>set rs. r \<noteq> []
                \<and> (\<forall>f\<in>set r. f\<lparr>level := None\<rparr> \<in> set (non_title_lines doc)
                       \<and> f\<lparr>level := None\<rparr> \<notin> set (title_lines_of doc (retained_lines doc)))))"
proof (intro conjI ballI)
  show "non_title_lines doc
           = filter (\<lambda>l. line_id l \<notin> line_id ` set (title_lines_of doc (retained_lines doc)))
               (retained_lines doc)"
    by (rule non_title_lines_filter)
next
  fix c assume "c \<in> set (title_lines_of doc (retained_lines doc))"
  then show "c \<notin> set (non_title_lines doc)" by (rule non_title_lines_not_consumed)
next
  from process_pdf_body_shape[OF assms] consider
    (none) "outline out = []"
    | (some) p0 body where "outline out
        = build_outline set_iter p0 (initial_candidates p0 body (non_title_lines doc))"
    by blast
  then show "\<exists>rs. outline out = map run_entry rs
          \<and> (\<forall>r\<in>set rs. r \<noteq> []
                \<and> (\<forall>f\<in>set r. f\<lparr>level := None\<rparr> \<in> set (non_title_lines doc)
                       \<and> f\<lparr>level := None\<rparr> \<notin> set (title_lines_of doc (retained_lines doc))))"
  proof cases
    case none
    then show ?thesis by (intro exI[of _ "[]"]) simp
  next
    case some
    let ?sh = "sorted_headings set_iter p0 (initial_candidates p0 body (non_title_lines doc))"
    have o: "outline out = map run_entry (runs ?sh)"
      unfolding some by (rule build_outline_runs)
    have "\<forall>r\<in>set (runs ?sh). r \<noteq> []
                \<and> (\<forall>f\<in>set r. f\<lparr>level := None\<rparr> \<in> set (non_title_lines doc)
                       \<and> f\<lparr>level := None\<rparr> \<notin> set (title_lines_of doc (retained_lines doc)))"
    proof (intro ballI conjI)
      fix r assume r: "r \<in> set (runs ?sh)"
      then show "r \<noteq> []" by (rule runs_nonempty)
      fix f assume "f \<in> set r"
      with runs_subset[OF r] have "f \<in> set ?sh" by blast
      then show n: "f\<lparr>level := None\<rparr> \<in> set (non_title_lines doc)"
        by (rule sorted_headings_from_non_title)
      show "f\<lparr>level := None\<rparr> \<notin> set (title_lines_of doc (retained_lines doc))"
        using n non_title_lines_not_consumed by blast
    qed
    with o show ?thesis by blast
  qed
qed

lemma heading_doc_result:
  "process_pdf_body remdups heading_doc = Inr \<lparr>title = ''Report Title'', outline = heading_outline\<rparr>"
  by code_simp

lemma heading_doc_title_lines:
  "map line_text (title_lines_of heading_doc (retained_lines heading_doc)) = [''Report Title'']"
  by code_simp

theorem title_lines_not_in_outline_witness:
  "process_pdf_body remdups heading_doc
     = Inr \<lparr>title = ''Report Title'', outline = heading_outline\<rparr>
   \<and> map line_text (title_lines_of heading_doc (retained_lines heading_doc)) = [''Report Title'']
   \<and> (\<exists>rs. heading_outline = map run_entry rs
          \<and> (\<forall>r\<in>set rs. r \<noteq> []
                \<and> (\<forall>f\<in>set r. f\<lparr>level := None\<rparr> \<in> set (non_title_lines heading_doc)
                       \<and> f\<lparr>level := None\<rparr>
                            \<notin> set (title_lines_of heading_doc (retained_lines heading_doc)))))"
proof -
  from title_lines_not_in_outline[OF heading_doc_result]
  have "\<exists>rs. outline \<lparr>title = ''Report Title'', outline = heading_outline\<rparr> = map run_entry rs
          \<and> (\<forall>r\<in>set rs. r \<noteq> []
                \<and> (\<forall>f\<in>set r. f\<lparr>level := None\<rparr> \<in> set (non_title_lines heading_doc)
                       \<and> f\<lparr>level := None\<rparr>
                            \<notin> set (title_lines_of heading_doc (retained_lines heading_doc))))"
    by blast
  then have "\<exists>rs. heading_outline = map run_entry rs
          \<and> (\<forall>r\<in>set rs. r \<noteq> []
                \<and> (\<forall>f\<in>set r. f\<lparr>level := None\<rparr> \<in> set (non_title_lines heading_doc)
                       \<and> f\<lparr>level := None\<rparr>
                            \<notin> set (title_lines_of heading_doc (retained_lines heading_doc))))"
    by (simp only: result.select_convs)
  with heading_doc_result heading_doc_title_lines show ?thesis by blast
qed

subsection \<open>Determinism\<close>

lemma heading_styles_unique:
  assumes "set_iteration f" and "set_iteration g"
  shows "heading_styles f cands = heading_styles g cands"
proof -
  let ?k = "\<lambda>s :: style. (- fst s, - (of_bool (snd s) :: int))"
  have inj: "inj ?k" by (rule injI) (rule style_key_inj)
  have io: "inj_on ?k A" for A using inj by (rule inj_on_subset) simp
  have df: "distinct (map ?k (heading_styles f cands))"
    by (intro distinct_map[THEN iffD2] conjI heading_styles_props(1)[OF assms(1)] io)
  have dg: "distinct (map ?k (heading_styles g cands))"
    by (intro distinct_map[THEN iffD2] conjI heading_styles_props(1)[OF assms(2)] io)
  have sf: "sorted (map ?k (heading_styles f cands))" by (simp add: heading_styles_def)
  have sg: "sorted (map ?k (heading_styles g cands))" by (simp add: heading_styles_def)
  have "set (map ?k (heading_styles f cands)) = set (map ?k (heading_styles g cands))"
    using heading_styles_props(2)[OF assms(1), of cands] heading_styles_props(2)[OF assms(2), of cands]
    by simp
  from sorted_distinct_set_unique[OF sf df sg dg this]
  show ?thesis using inj by (simp add: inj_map_eq_map)
qed

lemma build_outline_unique:
  assumes "set_iteration f" and "set_iteration g"
  shows "build_outline f p0 cands = build_outline g p0 cands"
  by (simp add: build_outline_def sorted_headings_def heading_styles_unique[OF assms])

text \<open>
  C7. The only thing in \<^verbatim>\<open>process_pdf\<close> that a run can vary for a fixed document is the
  order in which the set of candidate styles is iterated (line 281). Whatever that order
  is in two runs, the results are the same: same title, same outline, and the same error
  if the document cannot be opened.
\<close>

theorem output_independent_of_set_order:
  assumes "set_iteration f" and "set_iteration g"
  shows "process_pdf_body f doc = process_pdf_body g doc
    \<and> process_pdf f env pdf_path = process_pdf g env pdf_path"
proof -
  have an: "analyse_lines f d st = analyse_lines g d st" for d st
    by (simp add: analyse_lines_def build_outline_unique[OF assms] Let_def
        cong: if_cong sum.case_cong prod.case_cong)
  have body: "process_pdf_body f d = process_pdf_body g d" for d
    by (simp add: process_pdf_body_def an cong: sum.case_cong)
  show ?thesis by (simp add: process_pdf_def body cong: sum.case_cong prod.case_cong)
qed

lemma set_iteration_rev_remdups: "set_iteration (\<lambda>xs. rev (remdups xs))"
  by (simp add: set_iteration_def)

theorem output_independent_of_set_order_witness:
  "set_iteration remdups \<and> set_iteration (\<lambda>xs. rev (remdups xs))
   \<and> remdups [(14, True), (18, True)] \<noteq> rev (remdups [(14 :: int, True), (18, True)])
   \<and> process_pdf_body remdups heading_doc
       = Inr \<lparr>title = ''Report Title'', outline = heading_outline\<rparr>
   \<and> process_pdf_body (\<lambda>xs. rev (remdups xs)) heading_doc
       = Inr \<lparr>title = ''Report Title'', outline = heading_outline\<rparr>"
proof -
  have d: "remdups [(14, True), (18, True)] \<noteq> rev (remdups [(14 :: int, True), (18, True)])"
    by simp
  from output_independent_of_set_order[OF set_iteration_remdups set_iteration_rev_remdups,
      of heading_doc]
  have "process_pdf_body (\<lambda>xs. rev (remdups xs)) heading_doc
       = Inr \<lparr>title = ''Report Title'', outline = heading_outline\<rparr>"
    using heading_doc_result by simp
  with set_iteration_remdups set_iteration_rev_remdups d heading_doc_result
  show ?thesis by blast
qed

subsection \<open>The document handle\<close>

text \<open>
  C8, as amended. \<^verbatim>\<open>process_pdf\<close> obtains the document handle with \<^verbatim>\<open>fitz.open\<close> and
  never closes it: when the provider opens the document, the handle is still open when
  \<^verbatim>\<open>process_pdf\<close> returns, whatever the analysis returns; when the provider cannot open
  it, no handle is obtained and the error is passed on.
\<close>

theorem handle_left_open:
  "(files env pdf_path = Some doc \<longrightarrow>
      process_pdf set_iter env pdf_path
        = (env\<lparr>open_handles := pdf_path # open_handles env\<rparr>, process_pdf_body set_iter doc)
      \<and> pdf_path \<in> set (open_handles (fst (process_pdf set_iter env pdf_path))))
   \<and> (files env pdf_path = None \<longrightarrow>
        process_pdf set_iter env pdf_path = (env, Inl FileNotFound))"
  by (simp add: process_pdf_def fitz_open_def)

theorem handle_left_open_witness:
  "files report_env ''report.pdf'' = Some title_page
   \<and> process_pdf remdups report_env ''report.pdf''
       = (report_env\<lparr>open_handles := [''report.pdf'']\<rparr>,
          Inr \<lparr>title = ''Big Title Second Line'', outline = []\<rparr>)
   \<and> files report_env ''other.pdf'' = None
   \<and> process_pdf remdups report_env ''other.pdf'' = (report_env, Inl FileNotFound)"
proof -
  have a: "files report_env ''report.pdf'' = Some title_page" by (simp add: report_env_def)
  have b: "files report_env ''other.pdf'' = None" by (simp add: report_env_def)
  have c: "open_handles report_env = []" by (simp add: report_env_def)
  from handle_left_open[of report_env "''report.pdf''" title_page remdups] a c title_page_result
  have d: "process_pdf remdups report_env ''report.pdf''
       = (report_env\<lparr>open_handles := [''report.pdf'']\<rparr>,
          Inr \<lparr>title = ''Big Title Second Line'', outline = []\<rparr>)"
    by simp
  from handle_left_open[of report_env "''other.pdf''" title_page remdups] b
  have e: "process_pdf remdups report_env ''other.pdf'' = (report_env, Inl FileNotFound)"
    by simp
  from a b d e show ?thesis by blast
qed

text \<open>
  The claim C8 as stated fails on \<open>report_env\<close>: the analysis of the document completes
  and returns its result, no handle was open before, and the handle of the document is
  open afterwards; closing it would have left none.
\<close>

theorem handle_not_released:
  "snd (process_pdf remdups report_env ''report.pdf'')
     = Inr \<lparr>title = ''Big Title Second Line'', outline = []\<rparr>
   \<and> open_handles report_env = []
   \<and> open_handles (fst (process_pdf remdups report_env ''report.pdf'')) = [''report.pdf'']
   \<and> open_handles (doc_close (fst (process_pdf remdups report_env ''report.pdf'')) ''report.pdf'')
       = []"
proof -
  have a: "files report_env ''report.pdf'' = Some title_page" by (simp add: report_env_def)
  have c: "open_handles report_env = []" by (simp add: report_env_def)
  have "process_pdf remdups report_env ''report.pdf''
       = (report_env\<lparr>open_handles := [''report.pdf'']\<rparr>,
          Inr \<lparr>title = ''Big Title Second Line'', outline = []\<rparr>)"
    using a c title_page_result by (simp add: process_pdf_def fitz_open_def)
  then show ?thesis using c by (simp add: doc_close_def)
qed

end
